theory Spec2Isabelle
  imports Complex_Main "HOL-Library.Word" "HOL-Library.Char_ord" "HOL-Library.List_Lexorder"
    "HOL-Library.Log_Nat"
begin

section \<open>Actor layer: agent life cycle and supervisor (ggml-agent.cpp)\<close>

text \<open>
  The agent of \<^verbatim>\<open>ggml-agent.h\<close>, reduced to the fields its life cycle reads and writes.
  The field \<^verbatim>\<open>id\<close> is called \<open>agent_id\<close> (\<open>id\<close> is the identity function of HOL);
  \<open>worker_joinable\<close> stands for \<^verbatim>\<open>worker_thread.joinable()\<close>.
\<close>

datatype ggml_agent_state =
    GGML_AGENT_STATE_CREATED
  | GGML_AGENT_STATE_STARTING
  | GGML_AGENT_STATE_RUNNING
  | GGML_AGENT_STATE_STOPPING
  | GGML_AGENT_STATE_STOPPED
  | GGML_AGENT_STATE_FAILED

record ggml_agent =
  agent_id :: string
  state :: ggml_agent_state
  should_stop :: bool
  worker_joinable :: bool

text \<open>
  \<^verbatim>\<open>ggml_agent::start\<close>: the compare-exchange succeeds only from \<^verbatim>\<open>CREATED\<close>; in every
  other state the function returns at once. On success the worker thread is spawned, its
  \<^verbatim>\<open>run\<close> stores \<^verbatim>\<open>RUNNING\<close>, and \<^verbatim>\<open>start\<close> waits for that store, so the state seen
  by the caller is \<^verbatim>\<open>RUNNING\<close> (the transient \<^verbatim>\<open>STARTING\<close> is not observable after
  the call).
\<close>

definition start :: "ggml_agent \<Rightarrow> ggml_agent" where
  "start a =
     (if state a \<noteq> GGML_AGENT_STATE_CREATED then a
      else a\<lparr>state := GGML_AGENT_STATE_RUNNING, should_stop := False, worker_joinable := True\<rparr>)"

text \<open>\<^verbatim>\<open>ggml_agent::stop\<close>: nothing when already stopped or stopping.\<close>

definition stop :: "ggml_agent \<Rightarrow> ggml_agent" where
  "stop a =
     (if state a = GGML_AGENT_STATE_STOPPED \<or> state a = GGML_AGENT_STATE_STOPPING then a
      else a\<lparr>state := GGML_AGENT_STATE_STOPPING, should_stop := True\<rparr>)"

text \<open>
  \<^verbatim>\<open>ggml_agent::join\<close>: without a joinable worker it returns at once. Otherwise it waits for
  the worker's \<^verbatim>\<open>run\<close> loop, which leaves only when \<^verbatim>\<open>should_stop\<close> is set and then stores
  \<^verbatim>\<open>STOPPED\<close>. With \<^verbatim>\<open>should_stop\<close> clear the wait does not end: the value \<open>None\<close>.
\<close>

definition join :: "ggml_agent \<Rightarrow> ggml_agent option" where
  "join a =
     (if \<not> worker_joinable a then Some a
      else if should_stop a
        then Some (a\<lparr>state := GGML_AGENT_STATE_STOPPED, worker_joinable := False\<rparr>)
      else None)"

datatype ggml_agent_restart_strategy =
    GGML_AGENT_RESTART_ONE_FOR_ONE
  | GGML_AGENT_RESTART_ONE_FOR_ALL
  | GGML_AGENT_RESTART_REST_FOR_ONE

text \<open>
  The supervisor's child set and restart bookkeeping. \<^verbatim>\<open>restart_history\<close> is an
  \<^verbatim>\<open>unordered_map\<close> read with \<^verbatim>\<open>operator[]\<close>, so a missing key is the empty vector: a
  total function. Times are \<^verbatim>\<open>uint64_t\<close>, \<^verbatim>\<open>max_restarts\<close> is \<^verbatim>\<open>uint32_t\<close>.
\<close>

record ggml_agent_supervisor =
  children :: "ggml_agent list"
  strategy :: ggml_agent_restart_strategy
  max_restarts :: "32 word"
  max_restart_window_ms :: "64 word"
  restart_history :: "string \<Rightarrow> 64 word list"

text \<open>
  \<^verbatim>\<open>should_restart\<close>, with the clock reading \<open>now\<close> as an argument. The subtraction is
  unsigned 64-bit, as in the source.
\<close>

definition should_restart ::
  "64 word \<Rightarrow> string \<Rightarrow> ggml_agent_supervisor \<Rightarrow> bool \<times> ggml_agent_supervisor" where
  "should_restart now child_id sv =
     (let history = filter (\<lambda>timestamp. \<not> (now - timestamp > max_restart_window_ms sv))
                      (restart_history sv child_id)
      in if length history \<ge> unat (max_restarts sv)
         then (False, sv\<lparr>restart_history := (restart_history sv)(child_id := history)\<rparr>)
         else (True, sv\<lparr>restart_history := (restart_history sv)(child_id := history @ [now])\<rparr>))"

text \<open>
  \<^verbatim>\<open>restart_child\<close>: the loop over the children stops at the first child with the id
  (\<^verbatim>\<open>break\<close>); that child gets stop, join, start.
\<close>

fun restart_child_loop :: "string \<Rightarrow> ggml_agent list \<Rightarrow> ggml_agent list option" where
  "restart_child_loop child_id [] = Some []"
| "restart_child_loop child_id (child # rest) =
     (if agent_id child = child_id
      then (case join (stop child) of
              None \<Rightarrow> None
            | Some joined \<Rightarrow> Some (start joined # rest))
      else map_option ((#) child) (restart_child_loop child_id rest))"

definition restart_child :: "string \<Rightarrow> ggml_agent_supervisor \<Rightarrow> ggml_agent_supervisor option" where
  "restart_child child_id sv =
     map_option (\<lambda>cs. sv\<lparr>children := cs\<rparr>) (restart_child_loop child_id (children sv))"

fun join_all :: "ggml_agent list \<Rightarrow> ggml_agent list option" where
  "join_all [] = Some []"
| "join_all (child # rest) =
     (case join child of
        None \<Rightarrow> None
      | Some joined \<Rightarrow> map_option ((#) joined) (join_all rest))"

definition restart_all_children :: "ggml_agent_supervisor \<Rightarrow> ggml_agent_supervisor option" where
  "restart_all_children sv =
     map_option (\<lambda>cs. sv\<lparr>children := map start cs\<rparr>) (join_all (map stop (children sv)))"

text \<open>The \<^verbatim>\<open>REST_FOR_ONE\<close> loop of \<^verbatim>\<open>handle_child_failure\<close>, with its \<^verbatim>\<open>found\<close> flag.\<close>

fun rest_for_one_loop :: "string \<Rightarrow> bool \<Rightarrow> ggml_agent list \<Rightarrow> ggml_agent list option" where
  "rest_for_one_loop child_id found [] = Some []"
| "rest_for_one_loop child_id found (child # rest) =
     (if found \<or> agent_id child = child_id
      then (case join (stop child) of
              None \<Rightarrow> None
            | Some joined \<Rightarrow> map_option ((#) (start joined)) (rest_for_one_loop child_id True rest))
      else map_option ((#) child) (rest_for_one_loop child_id found rest))"

definition handle_child_failure ::
  "64 word \<Rightarrow> string \<Rightarrow> ggml_agent_supervisor \<Rightarrow> ggml_agent_supervisor option" where
  "handle_child_failure now child_id sv =
     (case should_restart now child_id sv of
        (False, sv') \<Rightarrow> Some sv'
      | (True, sv') \<Rightarrow>
          (case strategy sv' of
             GGML_AGENT_RESTART_ONE_FOR_ONE \<Rightarrow> restart_child child_id sv'
           | GGML_AGENT_RESTART_ONE_FOR_ALL \<Rightarrow> restart_all_children sv'
           | GGML_AGENT_RESTART_REST_FOR_ONE \<Rightarrow>
               map_option (\<lambda>cs. sv'\<lparr>children := cs\<rparr>)
                 (rest_for_one_loop child_id False (children sv'))))"

section \<open>Failure subsystem: circuit breaker (failure.cpp)\<close>

text \<open>
  \<^verbatim>\<open>circuit_breaker::impl\<close>. The field \<^verbatim>\<open>state\<close> is called \<open>cb_state\<close> here, since
  the agent record above owns the name. The counters are \<^verbatim>\<open>int\<close> and the times
  \<^verbatim>\<open>int64_t\<close>; they are modelled as unbounded integers: a counter is reset whenever the
  state changes and never passes its threshold (or 1), and the times are differences of
  clock readings in milliseconds, so no operation below can overflow. Every operation
  takes the clock reading \<open>now\<close> (\<^verbatim>\<open>get_timestamp_ms()\<close>) as an argument; the two readings
  inside one \<^verbatim>\<open>record_failure\<close> call are taken to be the same instant.
\<close>

datatype circuit_state = CIRCUIT_CLOSED | CIRCUIT_OPEN | CIRCUIT_HALF_OPEN

record circuit_breaker =
  failure_threshold :: int
  timeout_ms :: int
  success_threshold :: int
  cb_state :: circuit_state
  failure_count :: int
  success_count :: int
  last_failure_time :: int
  last_state_change :: int

definition circuit_breaker_new :: "int \<Rightarrow> int \<Rightarrow> int \<Rightarrow> int \<Rightarrow> circuit_breaker" where
  "circuit_breaker_new fail_thresh timeout success_thresh now =
     \<lparr>failure_threshold = fail_thresh, timeout_ms = timeout, success_threshold = success_thresh,
      cb_state = CIRCUIT_CLOSED, failure_count = 0, success_count = 0,
      last_failure_time = 0, last_state_change = now\<rparr>"

definition record_success :: "int \<Rightarrow> circuit_breaker \<Rightarrow> circuit_breaker" where
  "record_success now cb =
     (if cb_state cb = CIRCUIT_HALF_OPEN then
        (let cb1 = cb\<lparr>success_count := success_count cb + 1\<rparr>
         in if success_count cb1 \<ge> success_threshold cb1
            then cb1\<lparr>cb_state := CIRCUIT_CLOSED, failure_count := 0, success_count := 0,
                     last_state_change := now\<rparr>
            else cb1)
      else if cb_state cb = CIRCUIT_CLOSED then cb\<lparr>failure_count := 0\<rparr>
      else cb)"

definition record_failure :: "int \<Rightarrow> circuit_breaker \<Rightarrow> circuit_breaker" where
  "record_failure now cb =
     (let cb0 = cb\<lparr>last_failure_time := now\<rparr>
      in if cb_state cb0 = CIRCUIT_CLOSED then
           (let cb1 = cb0\<lparr>failure_count := failure_count cb0 + 1\<rparr>
            in if failure_count cb1 \<ge> failure_threshold cb1
               then cb1\<lparr>cb_state := CIRCUIT_OPEN, last_state_change := now\<rparr>
               else cb1)
         else if cb_state cb0 = CIRCUIT_HALF_OPEN
           then cb0\<lparr>cb_state := CIRCUIT_OPEN, success_count := 0, last_state_change := now\<rparr>
         else cb0)"

definition allow_request :: "int \<Rightarrow> circuit_breaker \<Rightarrow> bool \<times> circuit_breaker" where
  "allow_request now cb =
     (if cb_state cb = CIRCUIT_CLOSED then (True, cb)
      else if cb_state cb = CIRCUIT_OPEN then
        (if now - last_state_change cb \<ge> timeout_ms cb
         then (True, cb\<lparr>cb_state := CIRCUIT_HALF_OPEN, success_count := 0,
                         last_state_change := now\<rparr>)
         else (False, cb))
      else (True, cb))"

text \<open>A run of consecutive \<^verbatim>\<open>record_failure\<close> calls, one per clock reading of the list.\<close>

definition record_failures :: "int list \<Rightarrow> circuit_breaker \<Rightarrow> circuit_breaker" where
  "record_failures ts cb = foldl (\<lambda>c t. record_failure t c) cb ts"

section \<open>Actor layer: circuit breaker (ggml-agent.cpp)\<close>

text \<open>
  \<^verbatim>\<open>ggml_agent_circuit_breaker\<close>: atomics of type \<^verbatim>\<open>uint32_t\<close> and \<^verbatim>\<open>uint64_t\<close>, so
  \<^verbatim>\<open>fetch_add\<close> and the subtraction of times wrap around. The fields carry the prefix
  \<open>gcb_\<close> to keep them apart from those of \<open>circuit_breaker\<close>. Calls are taken one at a
  time, so the compare-exchange in \<^verbatim>\<open>allow_request\<close> succeeds.
\<close>

datatype ggml_agent_circuit_state =
  GGML_AGENT_CIRCUIT_CLOSED | GGML_AGENT_CIRCUIT_OPEN | GGML_AGENT_CIRCUIT_HALF_OPEN

record ggml_agent_circuit_breaker =
  gcb_state :: ggml_agent_circuit_state
  gcb_failure_count :: "32 word"
  gcb_success_count :: "32 word"
  gcb_failure_threshold :: "32 word"
  gcb_success_threshold :: "32 word"
  gcb_open_timeout_ms :: "64 word"
  gcb_last_failure_time_ms :: "64 word"

definition ggml_reset :: "ggml_agent_circuit_breaker \<Rightarrow> ggml_agent_circuit_breaker" where
  "ggml_reset cb =
     cb\<lparr>gcb_state := GGML_AGENT_CIRCUIT_CLOSED, gcb_failure_count := 0, gcb_success_count := 0\<rparr>"

definition ggml_allow_request ::
  "64 word \<Rightarrow> ggml_agent_circuit_breaker \<Rightarrow> bool \<times> ggml_agent_circuit_breaker" where
  "ggml_allow_request now cb =
     (if gcb_state cb = GGML_AGENT_CIRCUIT_CLOSED then (True, cb)
      else if gcb_state cb = GGML_AGENT_CIRCUIT_OPEN then
        (if now - gcb_last_failure_time_ms cb \<ge> gcb_open_timeout_ms cb
         then (True, cb\<lparr>gcb_state := GGML_AGENT_CIRCUIT_HALF_OPEN, gcb_success_count := 0\<rparr>)
         else (False, cb))
      else (True, cb))"

definition ggml_record_success :: "ggml_agent_circuit_breaker \<Rightarrow> ggml_agent_circuit_breaker" where
  "ggml_record_success cb =
     (if gcb_state cb = GGML_AGENT_CIRCUIT_HALF_OPEN then
        (let cb1 = cb\<lparr>gcb_success_count := gcb_success_count cb + 1\<rparr>
         in if gcb_success_count cb1 \<ge> gcb_success_threshold cb1 then ggml_reset cb1 else cb1)
      else if gcb_state cb = GGML_AGENT_CIRCUIT_CLOSED then cb\<lparr>gcb_failure_count := 0\<rparr>
      else cb)"

definition ggml_record_failure ::
  "64 word \<Rightarrow> ggml_agent_circuit_breaker \<Rightarrow> ggml_agent_circuit_breaker" where
  "ggml_record_failure now cb =
     (let cb0 = cb\<lparr>gcb_last_failure_time_ms := now\<rparr>
      in if gcb_state cb0 = GGML_AGENT_CIRCUIT_HALF_OPEN
           then cb0\<lparr>gcb_state := GGML_AGENT_CIRCUIT_OPEN, gcb_failure_count := 0\<rparr>
         else if gcb_state cb0 = GGML_AGENT_CIRCUIT_CLOSED then
           (let cb1 = cb0\<lparr>gcb_failure_count := gcb_failure_count cb0 + 1\<rparr>
            in if gcb_failure_count cb1 \<ge> gcb_failure_threshold cb1
               then cb1\<lparr>gcb_state := GGML_AGENT_CIRCUIT_OPEN\<rparr>
               else cb1)
         else cb0)"

definition ggml_record_failures ::
  "64 word list \<Rightarrow> ggml_agent_circuit_breaker \<Rightarrow> ggml_agent_circuit_breaker" where
  "ggml_record_failures ts cb = foldl (\<lambda>c t. ggml_record_failure t c) cb ts"

section \<open>Messages (message.cpp)\<close>

datatype message_type =
    MESSAGE_TYPE_REQUEST
  | MESSAGE_TYPE_RESPONSE
  | MESSAGE_TYPE_NOTIFICATION
  | MESSAGE_TYPE_ERROR
  | MESSAGE_TYPE_HEARTBEAT
  | MESSAGE_TYPE_BROADCAST

text \<open>
  \<^verbatim>\<open>agent_message\<close>. Fields that other structs of the repository name alike carry the
  prefix \<open>msg_\<close>; a \<^verbatim>\<open>std::map<std::string, std::string>\<close> is an association list.
\<close>

record agent_message =
  message_id :: string
  from_agent :: string
  to_agent :: string
  msg_type :: message_type
  payload :: string
  msg_thread_id :: string
  msg_timestamp :: int
  priority :: int
  msg_metadata :: "(string \<times> string) list"

section \<open>Single-precision arithmetic\<close>

text \<open>
  The type \<^verbatim>\<open>float\<close> of the consensus voter: IEEE 754 binary32 with every operation
  rounded to nearest, ties to even (the arithmetic of the usual 64-bit targets). A value
  is a finite number, an infinity (the flag is true for the negative one) or a NaN. The
  sign of a zero is not represented: the tally divides only by a total that is greater
  than 0, and comparisons do not see the sign.
\<close>

datatype float32 = Finite rat | Infinity bool | NaN

definition round_to_even :: "rat \<Rightarrow> int" where
  "round_to_even x =
     (let n = \<lfloor>x\<rfloor>; d = x - of_int n
      in if d < 1 / 2 then n else if 1 / 2 < d then n + 1 else if even n then n else n + 1)"

text \<open>
  Rounding of an exact result \<open>x\<close>. The exponent \<open>e\<close> is the least one from \<open>-126\<close> on
  with \<open>abs x < 2 powi (e + 1)\<close> (it is \<open>-126\<close> for the subnormal numbers). The floats
  with this exponent are the multiples of \<open>2 powi (e - 23)\<close>, and \<open>x\<close> goes to the nearest
  one, to the even multiple when two are equally near. A result of magnitude
  \<open>2 powi 128\<close> or more is an infinity.
\<close>

definition round_float :: "rat \<Rightarrow> float32" where
  "round_float x =
     (case find (\<lambda>e. \<bar>x\<bar> < 2 powi (e + 1)) [-126..127] of
        None \<Rightarrow> Infinity (x < 0)
      | Some e \<Rightarrow>
          (let y = of_int (round_to_even (x / 2 powi (e - 23))) * 2 powi (e - 23)
           in if 2 powi 128 \<le> \<bar>y\<bar> then Infinity (y < 0) else Finite y))"

fun float_add :: "float32 \<Rightarrow> float32 \<Rightarrow> float32" where
  "float_add (Finite a) (Finite b) = round_float (a + b)"
| "float_add (Finite a) (Infinity s) = Infinity s"
| "float_add (Infinity s) (Finite b) = Infinity s"
| "float_add (Infinity s) (Infinity t) = (if s = t then Infinity s else NaN)"
| "float_add NaN y = NaN"
| "float_add x NaN = NaN"

fun float_div :: "float32 \<Rightarrow> float32 \<Rightarrow> float32" where
  "float_div (Finite a) (Finite b) =
     (if b = 0 then (if a = 0 then NaN else Infinity (a < 0)) else round_float (a / b))"
| "float_div (Finite a) (Infinity s) = Finite 0"
| "float_div (Infinity s) (Finite b) = Infinity (s \<noteq> (b < 0))"
| "float_div (Infinity s) (Infinity t) = NaN"
| "float_div NaN y = NaN"
| "float_div x NaN = NaN"

text \<open>The comparisons \<^verbatim>\<open><\<close> and \<^verbatim>\<open><=\<close>: false whenever an operand is a NaN.\<close>

fun float_less :: "float32 \<Rightarrow> float32 \<Rightarrow> bool" where
  "float_less (Finite a) (Finite b) = (a < b)"
| "float_less (Finite a) (Infinity s) = (\<not> s)"
| "float_less (Infinity s) (Finite b) = s"
| "float_less (Infinity s) (Infinity t) = (s \<and> \<not> t)"
| "float_less NaN y = False"
| "float_less x NaN = False"

fun float_le :: "float32 \<Rightarrow> float32 \<Rightarrow> bool" where
  "float_le (Finite a) (Finite b) = (a \<le> b)"
| "float_le (Finite a) (Infinity s) = (\<not> s)"
| "float_le (Infinity s) (Finite b) = s"
| "float_le (Infinity s) (Infinity t) = (s \<or> \<not> t)"
| "float_le NaN y = False"
| "float_le x NaN = False"

text \<open>
  A direct way to the exponent, from the bit lengths of numerator and denominator. It
  serves the evaluation of \<open>round_float\<close> on given numbers, which checks the exponent
  before using it.
\<close>

definition float_exponent :: "rat \<Rightarrow> int" where
  "float_exponent x =
     (if \<bar>x\<bar> < 2 powi (- 126) then - 126
      else (case quotient_of \<bar>x\<bar> of (n, d) \<Rightarrow>
              (let k = bitlen n - bitlen d in if 2 powi k \<le> \<bar>x\<bar> then k else k - 1)))"

section \<open>Consensus voter (agent-collab.cpp)\<close>

datatype consensus_type =
    CONSENSUS_SIMPLE_MAJORITY
  | CONSENSUS_SUPERMAJORITY
  | CONSENSUS_UNANIMOUS
  | CONSENSUS_WEIGHTED

text \<open>
  \<^verbatim>\<open>consensus_vote\<close>. The field \<^verbatim>\<open>type\<close> is \<open>vote_type\<close>. The maps \<^verbatim>\<open>votes\<close> and
  \<^verbatim>\<open>weights\<close> are \<^verbatim>\<open>std::map\<close>s: association lists, iterated from the front. Weights are
  \<^verbatim>\<open>float\<close>s.
\<close>

record consensus_vote =
  vote_id :: string
  question :: string
  options :: "string list"
  vote_type :: consensus_type
  votes :: "(string \<times> string) list"
  weights :: "(string \<times> float32) list"
  deadline :: int
  result :: string
  finalized :: bool

text \<open>
  \<^verbatim>\<open>counts[option] += weight\<close> on the table of counts, kept in insertion order: a new
  entry starts at \<^verbatim>\<open>0.0f\<close>.
\<close>

fun add_count :: "string \<Rightarrow> float32 \<Rightarrow> (string \<times> float32) list \<Rightarrow> (string \<times> float32) list" where
  "add_count opt weight [] = [(opt, float_add (Finite 0) weight)]"
| "add_count opt weight ((k, c) # rest) =
     (if k = opt then (k, float_add c weight) # rest else (k, c) # add_count opt weight rest)"

text \<open>The weight one vote counts with: \<^verbatim>\<open>1.0f\<close> unless the ballot is weighted.\<close>

definition vote_weight :: "consensus_vote \<Rightarrow> string \<Rightarrow> float32" where
  "vote_weight vote agent =
     (if vote_type vote = CONSENSUS_WEIGHTED
      then (case map_of (weights vote) agent of Some w \<Rightarrow> w | None \<Rightarrow> Finite 1)
      else Finite 1)"

text \<open>The first loop of \<^verbatim>\<open>calculate_result\<close>: the table of counts and the total weight.\<close>

fun count_votes ::
  "consensus_vote \<Rightarrow> (string \<times> string) list \<Rightarrow> (string \<times> float32) list \<times> float32
     \<Rightarrow> (string \<times> float32) list \<times> float32" where
  "count_votes vote [] acc = acc"
| "count_votes vote ((agent, opt) # rest) (counts, total_weight) =
     count_votes vote rest
       (add_count opt (vote_weight vote agent) counts,
        float_add total_weight (vote_weight vote agent))"

text \<open>
  The second loop: the running maximum starts at \<^verbatim>\<open>0.0f\<close> with an empty winner and moves
  only on a strictly greater count.
\<close>

fun find_winner :: "(string \<times> float32) list \<Rightarrow> string \<times> float32 \<Rightarrow> string \<times> float32" where
  "find_winner [] acc = acc"
| "find_winner ((opt, count) # rest) (winner, max_count) =
     (if float_less max_count count then find_winner rest (opt, count)
      else find_winner rest (winner, max_count))"

text \<open>
  \<^verbatim>\<open>calculate_result\<close>. The table of counts is a \<^verbatim>\<open>std::unordered_map\<close>, whose
  iteration order the language leaves to the implementation: the argument \<open>bucket_order\<close>
  maps the table in insertion order to the sequence the second loop visits. The literals
  \<^verbatim>\<open>0.5f\<close> and \<^verbatim>\<open>1.0f\<close> are floats as they stand, \<^verbatim>\<open>0.66f\<close> is the float nearest to 66/100.
\<close>

definition calculate_result ::
  "((string \<times> float32) list \<Rightarrow> (string \<times> float32) list) \<Rightarrow> consensus_vote \<Rightarrow> string" where
  "calculate_result bucket_order vote =
     (if votes vote = [] then ''''
      else
        (case count_votes vote (votes vote) ([], Finite 0) of (counts, total_weight) \<Rightarrow>
         (case find_winner (bucket_order counts) ('''', Finite 0) of (winner, max_count) \<Rightarrow>
          (let percentage = (if float_less (Finite 0) total_weight
                             then float_div max_count total_weight else Finite 0)
           in case vote_type vote of
                CONSENSUS_SIMPLE_MAJORITY \<Rightarrow>
                  if float_less (Finite (1 / 2)) percentage then winner else ''''
              | CONSENSUS_SUPERMAJORITY \<Rightarrow>
                  if float_le (round_float (66 / 100)) percentage then winner else ''''
              | CONSENSUS_UNANIMOUS \<Rightarrow>
                  if float_le (Finite 1) percentage then winner else ''''
              | CONSENSUS_WEIGHTED \<Rightarrow> winner))))"

text \<open>
  \<^verbatim>\<open>consensus_manager\<close>: the ballots by id, whether a finalize callback is installed, and
  the calls made to it so far.
\<close>

record consensus_manager =
  ballots :: "string \<rightharpoonup> consensus_vote"
  on_finalize_callback :: bool
  finalize_calls :: "(string \<times> consensus_vote) list"

text \<open>\<^verbatim>\<open>votes[agent_id] = option\<close> on a \<^verbatim>\<open>std::map\<close>: assign in place or insert in key order.\<close>

fun map_assign :: "string \<Rightarrow> 'v \<Rightarrow> (string \<times> 'v) list \<Rightarrow> (string \<times> 'v) list" where
  "map_assign k v [] = [(k, v)]"
| "map_assign k v ((k', v') # rest) =
     (if k = k' then (k, v) # rest
      else if k < k' then (k, v) # (k', v') # rest
      else (k', v') # map_assign k v rest)"

definition cast_vote ::
  "consensus_manager \<Rightarrow> string \<Rightarrow> string \<Rightarrow> string \<Rightarrow> float32 \<Rightarrow> bool \<times> consensus_manager" where
  "cast_vote mgr vid agent opt weight =
     (case ballots mgr vid of
        None \<Rightarrow> (False, mgr)
      | Some vote \<Rightarrow>
          if finalized vote then (False, mgr)
          else if opt \<notin> set (options vote) then (False, mgr)
          else (True, mgr\<lparr>ballots := (ballots mgr)(vid \<mapsto>
                  vote\<lparr>votes := map_assign agent opt (votes vote),
                       weights := map_assign agent weight (weights vote)\<rparr>)\<rparr>))"

text \<open>
  \<^verbatim>\<open>finalize_vote\<close>. The parameter \<^verbatim>\<open>eligible_agents\<close> is part of the signature and is
  passed along here as in the source.
\<close>

definition finalize_vote ::
  "((string \<times> float32) list \<Rightarrow> (string \<times> float32) list) \<Rightarrow> consensus_manager \<Rightarrow> string
     \<Rightarrow> string list \<Rightarrow> bool \<times> consensus_manager" where
  "finalize_vote bucket_order mgr vid eligible_agents =
     (case ballots mgr vid of
        None \<Rightarrow> (False, mgr)
      | Some vote \<Rightarrow>
          if finalized vote then (False, mgr)
          else
            (let vote' = vote\<lparr>result := calculate_result bucket_order vote, finalized := True\<rparr>;
                 mgr' = mgr\<lparr>ballots := (ballots mgr)(vid \<mapsto> vote')\<rparr>
             in (True,
                 if on_finalize_callback mgr'
                 then mgr'\<lparr>finalize_calls := finalize_calls mgr' @ [(vid, vote')]\<rparr>
                 else mgr')))"

text \<open>
  The weight of a vote in the words of the specification: 1 per vote unless the rule is
  weighted, then the weight recorded for the agent, with 1 as default.
\<close>

definition weight_of_vote :: "consensus_vote \<Rightarrow> string \<Rightarrow> float32" where
  "weight_of_vote vote agent =
     (case vote_type vote of
        CONSENSUS_WEIGHTED \<Rightarrow> (case map_of (weights vote) agent of None \<Rightarrow> Finite 1 | Some w \<Rightarrow> w)
      | _ \<Rightarrow> Finite 1)"

text \<open>
  What the specification calls the weighted count of an option and the total weight, as
  the program forms them: the weights of the votes for the option, and of all votes,
  added up from \<^verbatim>\<open>0.0f\<close> in the order of the agent ids, each addition rounded.
\<close>

definition weights_for :: "consensus_vote \<Rightarrow> (string \<times> string) list \<Rightarrow> string \<Rightarrow> float32 list" where
  "weights_for vote vs opt =
     map (\<lambda>(agent, o'). weight_of_vote vote agent) (filter (\<lambda>(agent, o'). o' = opt) vs)"

definition weighted_count :: "consensus_vote \<Rightarrow> string \<Rightarrow> float32" where
  "weighted_count vote opt = foldl float_add (Finite 0) (weights_for vote (votes vote) opt)"

definition total_weight_of :: "consensus_vote \<Rightarrow> float32" where
  "total_weight_of vote =
     foldl float_add (Finite 0) (map (\<lambda>(agent, o'). weight_of_vote vote agent) (votes vote))"

definition vote_counts :: "consensus_vote \<Rightarrow> (string \<times> float32) list" where
  "vote_counts vote = fst (count_votes vote (votes vote) ([], Finite 0))"

text \<open>The share of the total weight that a count has, as \<^verbatim>\<open>calculate_result\<close> forms it.\<close>

definition percentage_of :: "float32 \<Rightarrow> float32 \<Rightarrow> float32" where
  "percentage_of count total_weight =
     (if float_less (Finite 0) total_weight then float_div count total_weight else Finite 0)"

text \<open>
  Example ballots. Scenario S5 of the specification: a supermajority ballot with the votes
  yes, yes, no. A weighted ballot with two votes of the given weights, for the given
  options. And a weighted ballot in which four agents vote for \<open>a\<close> with the weights
  16777216, 1, 1, 1 and one agent votes for \<open>b\<close> with the weight 16777218.
\<close>

definition s5_ballot :: consensus_vote where
  "s5_ballot =
     \<lparr>vote_id = ''v5'', question = ''ship?'', options = [''yes'', ''no''],
      vote_type = CONSENSUS_SUPERMAJORITY,
      votes = [(''a1'', ''yes''), (''a2'', ''yes''), (''a3'', ''no'')],
      weights = [(''a1'', Finite 1), (''a2'', Finite 1), (''a3'', Finite 1)],
      deadline = 0, result = '''', finalized = False\<rparr>"

definition two_vote_ballot :: "string \<Rightarrow> float32 \<Rightarrow> string \<Rightarrow> float32 \<Rightarrow> consensus_vote" where
  "two_vote_ballot opt1 w1 opt2 w2 =
     \<lparr>vote_id = ''t'', question = ''q'', options = [''a'', ''b''],
      vote_type = CONSENSUS_WEIGHTED,
      votes = [(''x'', opt1), (''y'', opt2)], weights = [(''x'', w1), (''y'', w2)],
      deadline = 0, result = '''', finalized = False\<rparr>"

definition large_weight_ballot :: consensus_vote where
  "large_weight_ballot =
     \<lparr>vote_id = ''r'', question = ''q'', options = [''a'', ''b''],
      vote_type = CONSENSUS_WEIGHTED,
      votes = [(''x1'', ''a''), (''x2'', ''a''), (''x3'', ''a''), (''x4'', ''a''), (''y'', ''b'')],
      weights = [(''x1'', Finite 16777216), (''x2'', Finite 1), (''x3'', Finite 1),
                 (''x4'', Finite 1), (''y'', Finite 16777218)],
      deadline = 0, result = '''', finalized = False\<rparr>"

section \<open>Requests, responses and the retry policy (message.h, failure.h, failure.cpp)\<close>

datatype response_status =
    RESPONSE_STATUS_SUCCESS
  | RESPONSE_STATUS_ERROR
  | RESPONSE_STATUS_CONTINUATION_REQUIRED
  | RESPONSE_STATUS_TIMEOUT
  | RESPONSE_STATUS_NOT_FOUND
  | RESPONSE_STATUS_UNAVAILABLE

text \<open>
  \<^verbatim>\<open>agent_request\<close> and \<^verbatim>\<open>agent_response\<close>; fields named alike elsewhere carry the prefix
  \<open>req_\<close> or \<open>resp_\<close>. The \<^verbatim>\<open>float\<close> temperature is a rational.
\<close>

record agent_request =
  prompt :: string
  req_thread_id :: string
  req_files :: "string list"
  req_images :: "string list"
  params :: "(string \<times> string) list"
  max_tokens :: int
  temperature :: rat
  system_prompt :: string

record agent_response =
  status :: response_status
  content :: string
  resp_thread_id :: string
  tokens_used :: int
  error_message :: string
  error_type :: string
  resp_metadata :: "(string \<times> string) list"

datatype error_type =
    ERROR_TYPE_NONE
  | ERROR_TYPE_TIMEOUT
  | ERROR_TYPE_CONNECTION
  | ERROR_TYPE_UNAVAILABLE
  | ERROR_TYPE_OVERLOAD
  | ERROR_TYPE_INVALID_REQUEST
  | ERROR_TYPE_INVALID_RESPONSE
  | ERROR_TYPE_AUTHENTICATION
  | ERROR_TYPE_AUTHORIZATION
  | ERROR_TYPE_RATE_LIMIT
  | ERROR_TYPE_CONTEXT_EXPIRED
  | ERROR_TYPE_THREAD_NOT_FOUND
  | ERROR_TYPE_AGENT_NOT_FOUND
  | ERROR_TYPE_OFFLINE
  | ERROR_TYPE_INTERNAL_ERROR
  | ERROR_TYPE_UNKNOWN

text \<open>\<^verbatim>\<open>retry_handler::can_handle\<close>.\<close>

definition can_handle :: "error_type \<Rightarrow> bool" where
  "can_handle t \<longleftrightarrow>
     t = ERROR_TYPE_TIMEOUT \<or> t = ERROR_TYPE_CONNECTION \<or>
     t = ERROR_TYPE_UNAVAILABLE \<or> t = ERROR_TYPE_OVERLOAD"

text \<open>
  \<^verbatim>\<open>failure_policy\<close>; its \<^verbatim>\<open>timeout_ms\<close> is \<open>policy_timeout_ms\<close>. The \<^verbatim>\<open>float\<close>
  multiplier is a rational, and \<^verbatim>\<open>std::pow\<close> on it is the exact power.
\<close>

record failure_policy =
  max_retries :: int
  retry_delay_ms :: int
  backoff_multiplier :: rat
  max_retry_delay_ms :: int
  policy_timeout_ms :: int
  enable_failover :: bool
  fallback_agents :: "string list"
  log_failures :: bool

definition default_policy :: failure_policy where
  "default_policy =
     \<lparr>max_retries = 3, retry_delay_ms = 1000, backoff_multiplier = 2, max_retry_delay_ms = 30000,
      policy_timeout_ms = 30000, enable_failover = False, fallback_agents = [],
      log_failures = True\<rparr>"

definition aggressive_policy :: failure_policy where
  "aggressive_policy =
     \<lparr>max_retries = 5, retry_delay_ms = 500, backoff_multiplier = 3 / 2,
      max_retry_delay_ms = 10000, policy_timeout_ms = 60000, enable_failover = True,
      fallback_agents = [], log_failures = True\<rparr>"

definition conservative_policy :: failure_policy where
  "conservative_policy =
     \<lparr>max_retries = 1, retry_delay_ms = 2000, backoff_multiplier = 2, max_retry_delay_ms = 60000,
      policy_timeout_ms = 15000, enable_failover = False, fallback_agents = [],
      log_failures = True\<rparr>"

text \<open>\<^verbatim>\<open>static_cast<int64_t>\<close> of a floating value: truncation towards zero.\<close>

definition truncate_to_int :: "rat \<Rightarrow> int" where
  "truncate_to_int q = (if q \<ge> 0 then \<lfloor>q\<rfloor> else \<lceil>q\<rceil>)"

text \<open>
  The delay computed in \<^verbatim>\<open>send_request_with_policy\<close> after a failed attempt:
  \<^verbatim>\<open>retry_delay_ms * static_cast<int64_t>(std::pow(backoff_multiplier, attempt))\<close>, capped
  at \<^verbatim>\<open>max_retry_delay_ms\<close>. The cast applies to the power, before the multiplication.
\<close>

definition retry_delay :: "failure_policy \<Rightarrow> int \<Rightarrow> int" where
  "retry_delay policy attempt =
     (let delay = retry_delay_ms policy
                    * truncate_to_int (backoff_multiplier policy ^ nat attempt)
      in if delay > max_retry_delay_ms policy then max_retry_delay_ms policy else delay)"

text \<open>
  The backoff of the actor layer, \<^verbatim>\<open>ggml_agent_retry_policy::get_backoff\<close>: the product is
  formed first and converted to \<^verbatim>\<open>uint64_t\<close> after (all quantities taken non-negative
  and in range).
\<close>

definition get_backoff :: "nat \<Rightarrow> rat \<Rightarrow> nat \<Rightarrow> nat \<Rightarrow> nat" where
  "get_backoff initial_backoff_ms multiplier max_backoff_ms attempt =
     min (nat (truncate_to_int (of_nat initial_backoff_ms * multiplier ^ attempt))) max_backoff_ms"

section \<open>Registry: sending requests under a failure policy (registry.cpp)\<close>

text \<open>
  The effects of \<^verbatim>\<open>send_request_with_policy\<close> that its result does not show are kept in
  a trace, in program order: every call of \<^verbatim>\<open>send_request\<close> (an attempt on the named
  agent) and every \<^verbatim>\<open>sleep_for\<close> with its delay in milliseconds.
\<close>

datatype event = Send_Request string | Sleep_For int

text \<open>
  \<^verbatim>\<open>agent_registry::impl\<close>: the agents by id, in a state of any type \<open>'a\<close>, and the
  counters. The pointer \<^verbatim>\<open>failure_mgr\<close> is initialised to null and the class has no
  operation that sets it, so the branch that records a failure under it never runs and is
  left out.
\<close>

record 'a agent_registry =
  agents :: "string \<rightharpoonup> 'a"
  total_messages :: int
  total_requests :: int
  total_failures :: int
  trace :: "event list"

text \<open>
  \<^verbatim>\<open>send_request\<close>. The virtual call \<^verbatim>\<open>agent->process_request(request)\<close> is the argument
  \<open>process_request\<close>: from the agent's state and the request to the response and the
  agent's new state.
\<close>

definition send_request ::
  "('a \<Rightarrow> agent_request \<Rightarrow> agent_response \<times> 'a) \<Rightarrow> 'a agent_registry \<Rightarrow> string \<Rightarrow> agent_request
     \<Rightarrow> agent_response \<times> 'a agent_registry" where
  "send_request process_request reg aid request =
     (let reg1 = reg\<lparr>total_requests := total_requests reg + 1,
                     trace := trace reg @ [Send_Request aid]\<rparr>
      in case agents reg1 aid of
           None \<Rightarrow>
             (\<lparr>status = RESPONSE_STATUS_NOT_FOUND, content = '''', resp_thread_id = '''',
               tokens_used = 0, error_message = ''Agent not found: '' @ aid,
               error_type = ''agent_not_found'', resp_metadata = []\<rparr>,
              reg1\<lparr>total_failures := total_failures reg1 + 1\<rparr>)
         | Some a \<Rightarrow>
             (case process_request a request of (response, a') \<Rightarrow>
                (response,
                 let reg2 = reg1\<lparr>agents := (agents reg1)(aid \<mapsto> a')\<rparr>
                 in if status response \<noteq> RESPONSE_STATUS_SUCCESS
                    then reg2\<lparr>total_failures := total_failures reg2 + 1\<rparr>
                    else reg2)))"

text \<open>
  The retry loop, from the value \<open>attempt\<close> of its counter on. \<open>Inl\<close> is the return from
  inside the loop on success; \<open>Inr\<close> is the exit from the loop (by \<^verbatim>\<open>break\<close> after the last
  attempt, or by the loop condition) with \<^verbatim>\<open>last_response\<close>, which is \<open>None\<close> as long as
  nothing was assigned to the default-constructed variable.
\<close>

function retry_loop ::
  "('a \<Rightarrow> agent_request \<Rightarrow> agent_response \<times> 'a) \<Rightarrow> failure_policy \<Rightarrow> string \<Rightarrow> agent_request
     \<Rightarrow> int \<Rightarrow> agent_response option \<Rightarrow> 'a agent_registry
     \<Rightarrow> (agent_response \<times> 'a agent_registry) + (agent_response option \<times> 'a agent_registry)" where
  "retry_loop process_request policy aid request attempt last_response reg =
     (if attempt \<le> max_retries policy then
        (case send_request process_request reg aid request of (response, reg1) \<Rightarrow>
           if status response = RESPONSE_STATUS_SUCCESS then Inl (response, reg1)
           else if attempt = max_retries policy then Inr (Some response, reg1)
           else retry_loop process_request policy aid request (attempt + 1) (Some response)
                  (reg1\<lparr>trace := trace reg1 @ [Sleep_For (retry_delay policy attempt)]\<rparr>))
      else Inr (last_response, reg))"
  by pat_completeness auto
termination
  by (relation "measure (\<lambda>(p, policy, aid, request, attempt, last, reg).
                  nat (max_retries policy + 1 - attempt))") auto

declare retry_loop.simps [simp del]

text \<open>The loop over \<^verbatim>\<open>policy.fallback_agents\<close>: the first successful response is returned.\<close>

fun failover ::
  "('a \<Rightarrow> agent_request \<Rightarrow> agent_response \<times> 'a) \<Rightarrow> agent_request \<Rightarrow> string list
     \<Rightarrow> 'a agent_registry \<Rightarrow> agent_response option \<times> 'a agent_registry" where
  "failover process_request request [] reg = (None, reg)"
| "failover process_request request (fallback_id # rest) reg =
     (case send_request process_request reg fallback_id request of (response, reg1) \<Rightarrow>
        if status response = RESPONSE_STATUS_SUCCESS then (Some response, reg1)
        else failover process_request request rest reg1)"

definition send_request_with_policy ::
  "('a \<Rightarrow> agent_request \<Rightarrow> agent_response \<times> 'a) \<Rightarrow> 'a agent_registry \<Rightarrow> string \<Rightarrow> agent_request
     \<Rightarrow> failure_policy \<Rightarrow> agent_response option \<times> 'a agent_registry" where
  "send_request_with_policy process_request reg aid request policy =
     (case retry_loop process_request policy aid request 0 None reg of
        Inl (response, reg1) \<Rightarrow> (Some response, reg1)
      | Inr (last_response, reg1) \<Rightarrow>
          if enable_failover policy \<and> fallback_agents policy \<noteq> [] then
            (case failover process_request request (fallback_agents policy) reg1 of
               (Some response, reg2) \<Rightarrow> (Some response, reg2)
             | (None, reg2) \<Rightarrow> (last_response, reg2))
          else (last_response, reg1))"

section \<open>JSON codecs (message.cpp, failure.cpp)\<close>

text \<open>
  JSON values as the library \<^verbatim>\<open>nlohmann::json\<close> holds them. The codecs of the repository
  build such a value and call \<^verbatim>\<open>dump\<close>, or call \<^verbatim>\<open>parse\<close> and read the value; text and
  value are taken to correspond (\<^verbatim>\<open>parse(dump(j)) = j\<close>, the contract of the library),
  so encoders end and decoders start at the value.
\<close>

datatype json =
    JNull
  | JBool bool
  | JInt int
  | JNum rat
  | JString string
  | JArray "json list"
  | JObject "(string \<times> json) list"

datatype json_error = Type_Error

text \<open>
  \<^verbatim>\<open>j.value(key, default)\<close> at the types the codecs use: the default when the key is
  absent, the converted member when it is present, and the library's \<^verbatim>\<open>type_error\<close>
  exception when \<open>j\<close> is not an object or the member has another type. The arithmetic
  conversion accepts integers, floating numbers (truncated) and booleans.
\<close>

definition value_string :: "json \<Rightarrow> string \<Rightarrow> string \<Rightarrow> json_error + string" where
  "value_string j key dflt =
     (case j of
        JObject members \<Rightarrow>
          (case map_of members key of
             None \<Rightarrow> Inr dflt
           | Some (JString s) \<Rightarrow> Inr s
           | Some _ \<Rightarrow> Inl Type_Error)
      | _ \<Rightarrow> Inl Type_Error)"

definition value_int :: "json \<Rightarrow> string \<Rightarrow> int \<Rightarrow> json_error + int" where
  "value_int j key dflt =
     (case j of
        JObject members \<Rightarrow>
          (case map_of members key of
             None \<Rightarrow> Inr dflt
           | Some (JInt n) \<Rightarrow> Inr n
           | Some (JNum q) \<Rightarrow> Inr (truncate_to_int q)
           | Some (JBool b) \<Rightarrow> Inr (if b then 1 else 0)
           | Some _ \<Rightarrow> Inl Type_Error)
      | _ \<Rightarrow> Inl Type_Error)"

definition value_bool :: "json \<Rightarrow> string \<Rightarrow> bool \<Rightarrow> json_error + bool" where
  "value_bool j key dflt =
     (case j of
        JObject members \<Rightarrow>
          (case map_of members key of
             None \<Rightarrow> Inr dflt
           | Some (JBool b) \<Rightarrow> Inr b
           | Some _ \<Rightarrow> Inl Type_Error)
      | _ \<Rightarrow> Inl Type_Error)"

text \<open>The members of a JSON object as a \<^verbatim>\<open>std::map<std::string, std::string>\<close>.\<close>

fun string_members :: "(string \<times> json) list \<Rightarrow> json_error + (string \<times> string) list" where
  "string_members [] = Inr []"
| "string_members ((k, JString s) # rest) =
     (case string_members rest of Inl e \<Rightarrow> Inl e | Inr kvs \<Rightarrow> Inr ((k, s) # kvs))"
| "string_members ((k, _) # rest) = Inl Type_Error"

definition value_string_map ::
  "json \<Rightarrow> string \<Rightarrow> (string \<times> string) list \<Rightarrow> json_error + (string \<times> string) list" where
  "value_string_map j key dflt =
     (case j of
        JObject members \<Rightarrow>
          (case map_of members key of
             None \<Rightarrow> Inr dflt
           | Some (JObject kvs) \<Rightarrow> string_members kvs
           | Some _ \<Rightarrow> Inl Type_Error)
      | _ \<Rightarrow> Inl Type_Error)"

text \<open>Sequencing of decoding steps: the first exception ends the decoding.\<close>

definition and_then :: "json_error + 'a \<Rightarrow> ('a \<Rightarrow> json_error + 'b) \<Rightarrow> json_error + 'b" where
  "and_then r f = (case r of Inl e \<Rightarrow> Inl e | Inr x \<Rightarrow> f x)"

fun error_type_to_string :: "error_type \<Rightarrow> string" where
  "error_type_to_string ERROR_TYPE_NONE = ''none''"
| "error_type_to_string ERROR_TYPE_TIMEOUT = ''timeout''"
| "error_type_to_string ERROR_TYPE_CONNECTION = ''connection''"
| "error_type_to_string ERROR_TYPE_UNAVAILABLE = ''unavailable''"
| "error_type_to_string ERROR_TYPE_OVERLOAD = ''overload''"
| "error_type_to_string ERROR_TYPE_INVALID_REQUEST = ''invalid_request''"
| "error_type_to_string ERROR_TYPE_INVALID_RESPONSE = ''invalid_response''"
| "error_type_to_string ERROR_TYPE_AUTHENTICATION = ''authentication''"
| "error_type_to_string ERROR_TYPE_AUTHORIZATION = ''authorization''"
| "error_type_to_string ERROR_TYPE_RATE_LIMIT = ''rate_limit''"
| "error_type_to_string ERROR_TYPE_CONTEXT_EXPIRED = ''context_expired''"
| "error_type_to_string ERROR_TYPE_THREAD_NOT_FOUND = ''thread_not_found''"
| "error_type_to_string ERROR_TYPE_AGENT_NOT_FOUND = ''agent_not_found''"
| "error_type_to_string ERROR_TYPE_OFFLINE = ''offline''"
| "error_type_to_string ERROR_TYPE_INTERNAL_ERROR = ''internal_error''"
| "error_type_to_string ERROR_TYPE_UNKNOWN = ''unknown''"

text \<open>
  \<^verbatim>\<open>failure_record\<close>; the fields named alike elsewhere carry the prefix \<open>fr_\<close> (the source
  names are \<^verbatim>\<open>agent_id\<close>, \<^verbatim>\<open>error\<close>, \<^verbatim>\<open>error_message\<close>, \<^verbatim>\<open>timestamp\<close>, \<^verbatim>\<open>thread_id\<close>,
  \<^verbatim>\<open>message_id\<close>). The JSON keys are the source's.
\<close>

record failure_record =
  fr_agent_id :: string
  fr_error :: error_type
  fr_error_message :: string
  fr_timestamp :: int
  fr_thread_id :: string
  fr_message_id :: string
  retry_count :: int
  recovered :: bool
  recovery_agent :: string

definition failure_record_to_json :: "failure_record \<Rightarrow> json" where
  "failure_record_to_json r =
     JObject
       [(''agent_id'', JString (fr_agent_id r)),
        (''error'', JString (error_type_to_string (fr_error r))),
        (''error_message'', JString (fr_error_message r)),
        (''timestamp'', JInt (fr_timestamp r)),
        (''thread_id'', JString (fr_thread_id r)),
        (''message_id'', JString (fr_message_id r)),
        (''retry_count'', JInt (retry_count r)),
        (''recovered'', JBool (recovered r)),
        (''recovery_agent'', JString (recovery_agent r))]"

text \<open>
  \<^verbatim>\<open>failure_record::from_json\<close>, with the clock reading \<open>now\<close> that is the default of the
  timestamp. The member \<^verbatim>\<open>error\<close> is read into the local \<^verbatim>\<open>error_str\<close>, and the field is
  then set to \<^verbatim>\<open>ERROR_TYPE_UNKNOWN\<close> (source comment: ``Default, parse if needed'').
\<close>

definition failure_record_from_json :: "int \<Rightarrow> json \<Rightarrow> json_error + failure_record" where
  "failure_record_from_json now j =
     and_then (value_string j ''agent_id'' '''') (\<lambda>v_agent_id.
     and_then (value_string j ''error_message'' '''') (\<lambda>v_error_message.
     and_then (value_int j ''timestamp'' now) (\<lambda>v_timestamp.
     and_then (value_string j ''thread_id'' '''') (\<lambda>v_thread_id.
     and_then (value_string j ''message_id'' '''') (\<lambda>v_message_id.
     and_then (value_int j ''retry_count'' 0) (\<lambda>v_retry_count.
     and_then (value_bool j ''recovered'' False) (\<lambda>v_recovered.
     and_then (value_string j ''recovery_agent'' '''') (\<lambda>v_recovery_agent.
     and_then (value_string j ''error'' ''unknown'') (\<lambda>error_str.
       Inr \<lparr>fr_agent_id = v_agent_id, fr_error = ERROR_TYPE_UNKNOWN,
            fr_error_message = v_error_message, fr_timestamp = v_timestamp,
            fr_thread_id = v_thread_id, fr_message_id = v_message_id,
            retry_count = v_retry_count, recovered = v_recovered,
            recovery_agent = v_recovery_agent\<rparr>)))))))))"

text \<open>The codec of \<^verbatim>\<open>agent_message\<close>, whose decoder does parse the enumerated kind.\<close>

fun message_type_to_string :: "message_type \<Rightarrow> string" where
  "message_type_to_string MESSAGE_TYPE_REQUEST = ''request''"
| "message_type_to_string MESSAGE_TYPE_RESPONSE = ''response''"
| "message_type_to_string MESSAGE_TYPE_NOTIFICATION = ''notification''"
| "message_type_to_string MESSAGE_TYPE_ERROR = ''error''"
| "message_type_to_string MESSAGE_TYPE_HEARTBEAT = ''heartbeat''"
| "message_type_to_string MESSAGE_TYPE_BROADCAST = ''broadcast''"

definition agent_message_to_json :: "agent_message \<Rightarrow> json" where
  "agent_message_to_json m =
     JObject
       [(''message_id'', JString (message_id m)),
        (''from_agent'', JString (from_agent m)),
        (''to_agent'', JString (to_agent m)),
        (''type'', JString (message_type_to_string (msg_type m))),
        (''payload'', JString (payload m)),
        (''thread_id'', JString (msg_thread_id m)),
        (''timestamp'', JInt (msg_timestamp m)),
        (''priority'', JInt (priority m)),
        (''metadata'', JObject (map (\<lambda>(k, v). (k, JString v)) (msg_metadata m)))]"

definition agent_message_from_json :: "int \<Rightarrow> json \<Rightarrow> json_error + agent_message" where
  "agent_message_from_json now j =
     and_then (value_string j ''message_id'' '''') (\<lambda>v_message_id.
     and_then (value_string j ''from_agent'' '''') (\<lambda>v_from_agent.
     and_then (value_string j ''to_agent'' '''') (\<lambda>v_to_agent.
     and_then (value_string j ''type'' ''request'') (\<lambda>type_str.
     and_then (value_string j ''payload'' '''') (\<lambda>v_payload.
     and_then (value_string j ''thread_id'' '''') (\<lambda>v_thread_id.
     and_then (value_int j ''timestamp'' now) (\<lambda>v_timestamp.
     and_then (value_int j ''priority'' 5) (\<lambda>v_priority.
     and_then (value_string_map j ''metadata'' []) (\<lambda>v_metadata.
       Inr \<lparr>message_id = v_message_id, from_agent = v_from_agent, to_agent = v_to_agent,
            msg_type =
              (if type_str = ''response'' then MESSAGE_TYPE_RESPONSE
               else if type_str = ''notification'' then MESSAGE_TYPE_NOTIFICATION
               else if type_str = ''error'' then MESSAGE_TYPE_ERROR
               else if type_str = ''heartbeat'' then MESSAGE_TYPE_HEARTBEAT
               else if type_str = ''broadcast'' then MESSAGE_TYPE_BROADCAST
               else MESSAGE_TYPE_REQUEST),
            payload = v_payload, msg_thread_id = v_thread_id, msg_timestamp = v_timestamp,
            priority = v_priority, msg_metadata = v_metadata\<rparr>)))))))))"

section \<open>Conversation memory and the context builder (conversation.cpp)\<close>

text \<open>
  \<^verbatim>\<open>conversation_turn\<close>, \<^verbatim>\<open>conversation_thread\<close> and \<^verbatim>\<open>reconstructed_context\<close>. Fields named
  alike elsewhere carry a prefix (\<open>turn_content\<close>, \<open>turn_timestamp\<close>, \<open>turn_agent_id\<close>,
  \<open>turn_metadata\<close>, \<open>ctx_tokens_used\<close>), and the thread's map \<^verbatim>\<open>context\<close> is
  \<open>context_map\<close>. Token counts are \<^verbatim>\<open>int\<close>s far below their
  bound for texts that fit in memory; they are unbounded integers here.
\<close>

record conversation_turn =
  role :: string
  turn_content :: string
  turn_timestamp :: int
  files :: "string list"
  images :: "string list"
  turn_agent_id :: string
  model :: string
  turn_metadata :: "(string \<times> string) list"

record conversation_thread =
  thread_id :: string
  parent_id :: string
  created_at :: int
  updated_at :: int
  initiating_agent :: string
  turns :: "conversation_turn list"
  context_map :: "(string \<times> string) list"
  expires_at :: int

record reconstructed_context =
  full_context :: string
  ctx_tokens_used :: int
  turns_included :: int
  files_included :: "string list"
  truncated :: bool

record conversation_memory =
  threads :: "string \<rightharpoonup> conversation_thread"
  ttl_ms :: int
  max_threads :: nat

text \<open>\<^verbatim>\<open>get_thread\<close>: an expired thread is erased and not returned.\<close>

definition get_thread ::
  "int \<Rightarrow> conversation_memory \<Rightarrow> string \<Rightarrow> conversation_thread option \<times> conversation_memory" where
  "get_thread now mem tid =
     (case threads mem tid of
        None \<Rightarrow> (None, mem)
      | Some thread \<Rightarrow>
          if now \<ge> expires_at thread then (None, mem\<lparr>threads := (threads mem)(tid := None)\<rparr>)
          else (Some thread, mem))"

text \<open>
  The token estimator. The file system is the argument \<open>fs\<close>: the content of a path that
  can be opened, \<open>None\<close> otherwise.
\<close>

definition estimate_tokens :: "string \<Rightarrow> int" where
  "estimate_tokens text = (if text = [] then 0 else int (length text div 4))"

definition estimate_file_tokens :: "(string \<Rightarrow> string option) \<Rightarrow> string \<Rightarrow> int" where
  "estimate_file_tokens fs file_path =
     (case fs file_path of None \<Rightarrow> 0 | Some text \<Rightarrow> estimate_tokens text)"

definition estimate_turn_tokens :: "conversation_turn \<Rightarrow> int" where
  "estimate_turn_tokens turn = estimate_tokens (turn_content turn) + (estimate_tokens (role turn) + 10)"

text \<open>
  The output string stream: its text and its fail bit. Inserting while the fail bit is
  set does nothing; inserting the stream buffer of a file that yields no character sets
  the fail bit (the rule of \<^verbatim>\<open>operator<<(streambuf*)\<close>).
\<close>

record ostream =
  buf :: string
  failbit :: bool

definition put :: "string \<Rightarrow> ostream \<Rightarrow> ostream" where
  "put s out = (if failbit out then out else out\<lparr>buf := buf out @ s\<rparr>)"

definition put_rdbuf :: "string \<Rightarrow> ostream \<Rightarrow> ostream" where
  "put_rdbuf file_text out =
     (if failbit out then out
      else if file_text = [] then out\<lparr>failbit := True\<rparr>
      else out\<lparr>buf := buf out @ file_text\<rparr>)"

text \<open>Decimal output of a 64-bit integer.\<close>

definition digit_char :: "nat \<Rightarrow> char" where
  "digit_char d = char_of (48 + d)"

function show_nat :: "nat \<Rightarrow> string" where
  "show_nat n = (if n < 10 then [digit_char n] else show_nat (n div 10) @ [digit_char (n mod 10)])"
  by pat_completeness auto
termination
  by (relation "measure (\<lambda>n. n)") auto

declare show_nat.simps [simp del]

definition show_int :: "int \<Rightarrow> string" where
  "show_int i = (if i < 0 then CHR ''-'' # show_nat (nat (- i)) else show_nat (nat i))"

text \<open>The header and the block of initial context.\<close>

definition context_lines :: "(string \<times> string) list \<Rightarrow> string" where
  "context_lines kvs =
     concat (map (\<lambda>(key, val). ''  '' @ key @ '': '' @ val @ ''\<newline>'') kvs)"

definition write_header :: "string \<Rightarrow> conversation_thread \<Rightarrow> ostream \<Rightarrow> ostream" where
  "write_header tid thread out =
     (let out1 = put (''=== Conversation Thread: '' @ tid @ '' ===\<newline>''
                      @ ''Initiated by: '' @ initiating_agent thread @ ''\<newline>''
                      @ ''Created: '' @ show_int (created_at thread) @ ''\<newline>\<newline>'') out
      in if context_map thread \<noteq> []
         then put (''Initial Context:\<newline>'' @ context_lines (context_map thread) @ ''\<newline>'') out1
         else out1)"

text \<open>
  The referenced files, newest turn first, each once: the inner loop appends a file that
  is not yet in the list.
\<close>

fun add_files :: "string list \<Rightarrow> string list \<Rightarrow> string list" where
  "add_files all [] = all"
| "add_files all (file # rest) = add_files (if file \<in> set all then all else all @ [file]) rest"

definition all_files_of :: "conversation_thread \<Rightarrow> string list" where
  "all_files_of thread = foldl (\<lambda>all turn. add_files all (files turn)) [] (rev (turns thread))"

text \<open>
  The loop that appends file contents, with its \<^verbatim>\<open>break\<close>. The state is the stream, the
  files included, their tokens and the flag \<^verbatim>\<open>truncated\<close>. The variable \<^verbatim>\<open>total_tokens\<close>
  is not changed inside the loop (it is 0 there); it is passed as in the source.
\<close>

fun file_loop ::
  "(string \<Rightarrow> string option) \<Rightarrow> int \<Rightarrow> int \<Rightarrow> string list
     \<Rightarrow> ostream \<times> string list \<times> int \<times> bool \<Rightarrow> ostream \<times> string list \<times> int \<times> bool" where
  "file_loop fs budget total_tokens [] st = st"
| "file_loop fs budget total_tokens (file # rest) (out, included, file_tokens, trunc) =
     (let file_token_estimate = estimate_file_tokens fs file
      in if budget > 0 \<and> total_tokens + file_token_estimate > budget div 2
         then (out, included, file_tokens, True)
         else
           (let out1 = put (''\<newline>--- File: '' @ file @ '' ---\<newline>'') out
            in case fs file of
                 Some file_text \<Rightarrow>
                   file_loop fs budget total_tokens rest
                     (put ''\<newline>--- End File ---\<newline>'' (put_rdbuf file_text out1),
                      included @ [file], file_tokens + file_token_estimate, trunc)
               | None \<Rightarrow>
                   file_loop fs budget total_tokens rest
                     (put ''\<newline>--- End File ---\<newline>'' out1, included, file_tokens, trunc)))"

text \<open>
  The loop that collects turns from the newest to the oldest under the budget, with its
  \<^verbatim>\<open>break\<close>. The state is the vector \<^verbatim>\<open>included_turns\<close>, \<^verbatim>\<open>total_tokens\<close>,
  \<^verbatim>\<open>turns_included\<close> and \<^verbatim>\<open>truncated\<close>.
\<close>

fun collect_turns ::
  "int \<Rightarrow> conversation_turn list \<Rightarrow> conversation_turn list \<times> int \<times> int \<times> bool
     \<Rightarrow> conversation_turn list \<times> int \<times> int \<times> bool" where
  "collect_turns budget [] st = st"
| "collect_turns budget (turn # rest) (included, total_tokens, n_included, trunc) =
     (let turn_tokens = estimate_turn_tokens turn
      in if budget > 0 \<and> total_tokens + turn_tokens > budget
         then (included, total_tokens, n_included, True)
         else collect_turns budget rest
                (included @ [turn], total_tokens + turn_tokens, n_included + 1, trunc))"

fun join_comma :: "string list \<Rightarrow> string" where
  "join_comma [] = ''''"
| "join_comma [x] = x"
| "join_comma (x # y # rest) = x @ '', '' @ join_comma (y # rest)"

text \<open>The text one turn is presented with.\<close>

definition format_turn :: "conversation_turn \<Rightarrow> string" where
  "format_turn turn =
     ''\<newline>['' @ role turn @ '']''
     @ (if turn_agent_id turn \<noteq> [] then '' (agent: '' @ turn_agent_id turn @ '')'' else [])
     @ (if model turn \<noteq> [] then '' (model: '' @ model turn @ '')'' else [])
     @ '':\<newline>'' @ turn_content turn @ ''\<newline>''
     @ (if files turn \<noteq> [] then ''  Files: '' @ join_comma (files turn) @ ''\<newline>'' else [])"

definition truncation_note :: string where
  "truncation_note = ''\<newline>[Note: Context was truncated due to token budget]\<newline>''"

text \<open>
  The part of \<^verbatim>\<open>build_conversation_history\<close> up to and including the line
  \<^verbatim>\<open>Conversation History:\<close>: the stream, the files included, their tokens and the flag.
\<close>

definition history_prefix ::
  "(string \<Rightarrow> string option) \<Rightarrow> string \<Rightarrow> conversation_thread \<Rightarrow> int \<Rightarrow> bool
     \<Rightarrow> ostream \<times> string list \<times> int \<times> bool" where
  "history_prefix fs tid thread budget include_files =
     (let out0 = write_header tid thread \<lparr>buf = [], failbit = False\<rparr>;
          all_files = all_files_of thread
      in case (if include_files \<and> all_files \<noteq> []
               then (case file_loop fs budget 0 all_files
                            (put ''Referenced Files:\<newline>'' out0, [], 0, False) of
                       (out1, included, file_tokens, trunc) \<Rightarrow>
                         (put ''\<newline>'' out1, included, file_tokens, trunc))
               else (out0, [], 0, False)) of
           (out2, included, file_tokens, trunc) \<Rightarrow>
             (put ''Conversation History:\<newline>'' out2, included, file_tokens, trunc))"

definition build_conversation_history ::
  "(string \<Rightarrow> string option) \<Rightarrow> int \<Rightarrow> conversation_memory \<Rightarrow> string \<Rightarrow> int \<Rightarrow> bool
     \<Rightarrow> reconstructed_context \<times> conversation_memory" where
  "build_conversation_history fs now mem tid budget include_files =
     (case get_thread now mem tid of
        (None, mem') \<Rightarrow>
          (\<lparr>full_context = '''', ctx_tokens_used = 0, turns_included = 0,
            files_included = [], truncated = False\<rparr>, mem')
      | (Some thread, mem') \<Rightarrow>
          (case history_prefix fs tid thread budget include_files of
             (out, included_files, file_tokens, trunc1) \<Rightarrow>
               (case collect_turns budget (rev (turns thread))
                       ([], 0 + file_tokens, 0, trunc1) of
                  (included_turns, total_tokens, n_included, trunc2) \<Rightarrow>
                    (let out1 = foldl (\<lambda>s turn. put (format_turn turn) s) out
                                  (rev included_turns);
                         out2 = (if trunc2 then put truncation_note out1 else out1)
                     in (\<lparr>full_context = buf out2, ctx_tokens_used = total_tokens,
                          turns_included = n_included, files_included = included_files,
                          truncated = trunc2\<rparr>, mem')))))"

text \<open>
  An example for the context builder: a memory holding one thread \<open>T\<close> of three turns
  that expires at time 100. The first turn references the file \<^verbatim>\<open>notes.txt\<close>, which
  holds the given text in the example file system; no other path can be opened.
\<close>

definition example_turn :: "string \<Rightarrow> string \<Rightarrow> conversation_turn" where
  "example_turn r text =
     \<lparr>role = r, turn_content = text, turn_timestamp = 1, files = [], images = [],
      turn_agent_id = ''A'', model = '''', turn_metadata = []\<rparr>"

definition example_thread :: conversation_thread where
  "example_thread =
     \<lparr>thread_id = ''T'', parent_id = '''', created_at = 1, updated_at = 1,
      initiating_agent = ''A'',
      turns = [(example_turn ''user'' ''hello'')\<lparr>files := [''notes.txt'']\<rparr>,
               example_turn ''assistant'' ''echo:hello'',
               example_turn ''user'' ''again''],
      context_map = [], expires_at = 100\<rparr>"

definition example_memory :: conversation_memory where
  "example_memory = \<lparr>threads = [''T'' \<mapsto> example_thread], ttl_ms = 3600000, max_threads = 10\<rparr>"

definition example_fs :: "string \<Rightarrow> string \<Rightarrow> string option" where
  "example_fs notes path = (if path = ''notes.txt'' then Some notes else None)"

section \<open>Task scheduler (agent-collab.cpp)\<close>

datatype agent_task_type =
    AGENT_TASK_TYPE_ANALYZE
  | AGENT_TASK_TYPE_GENERATE
  | AGENT_TASK_TYPE_TEST
  | AGENT_TASK_TYPE_REVIEW
  | AGENT_TASK_TYPE_REFACTOR
  | AGENT_TASK_TYPE_DOCUMENT
  | AGENT_TASK_TYPE_CONSENSUS
  | AGENT_TASK_TYPE_CUSTOM

datatype task_status =
    TASK_STATUS_PENDING
  | TASK_STATUS_ASSIGNED
  | TASK_STATUS_EXECUTING
  | TASK_STATUS_COMPLETED
  | TASK_STATUS_FAILED
  | TASK_STATUS_CANCELLED

text \<open>
  \<^verbatim>\<open>agent_task\<close> and \<^verbatim>\<open>task_result\<close>. Renamed fields: \<^verbatim>\<open>type\<close> is \<open>task_type\<close>,
  \<^verbatim>\<open>priority\<close> is \<open>task_priority\<close>, \<^verbatim>\<open>created_at\<close> is \<open>task_created_at\<close>, \<^verbatim>\<open>deadline\<close> is
  \<open>task_deadline\<close>, \<^verbatim>\<open>status\<close> is \<open>t_status\<close>; those of the result carry the prefix \<open>tr_\<close>.
\<close>

record agent_task =
  task_id :: string
  task_type :: agent_task_type
  description :: string
  parameters :: json
  dependencies :: "string list"
  required_roles :: "string list"
  task_priority :: int
  parent_task_id :: string
  task_created_at :: int
  task_deadline :: int
  t_status :: task_status
  assigned_agent_id :: string

record task_result =
  tr_task_id :: string
  tr_agent_id :: string
  tr_result :: string
  success :: bool
  tr_error_message :: string
  duration_ms :: int

text \<open>
  The heap routines \<^verbatim>\<open>std::push_heap\<close> and \<^verbatim>\<open>std::make_heap\<close> under \<^verbatim>\<open>task_compare\<close>
  belong to the standard library, which fixes only that they rearrange the vector into a
  heap, not the arrangement. They are arguments of the scheduler's operations;
  \<open>heap_ops_ok\<close> states what is used of them, that they keep the elements.
\<close>

record heap_ops =
  push_heap :: "agent_task list \<Rightarrow> agent_task list"
  make_heap :: "agent_task list \<Rightarrow> agent_task list"

definition heap_ops_ok :: "heap_ops \<Rightarrow> bool" where
  "heap_ops_ok h \<longleftrightarrow>
     (\<forall>xs. set (push_heap h xs) = set xs) \<and> (\<forall>xs. set (make_heap h xs) = set xs)"

text \<open>
  \<^verbatim>\<open>task_scheduler\<close>. The graph member \<^verbatim>\<open>dependencies\<close> is \<open>dependency_graph\<close>. Both graph
  members are read with \<^verbatim>\<open>operator[]\<close> on insertion: total functions with the empty
  container as default. A set of dependents is a list without repetition; the order in
  which it is iterated only decides where a released task enters the heap vector.
\<close>

record task_scheduler =
  task_queue :: "agent_task list"
  task_map :: "string \<rightharpoonup> agent_task"
  results :: "string \<rightharpoonup> task_result"
  dependency_graph :: "string \<Rightarrow> string list"
  dependents :: "string \<Rightarrow> string list"

definition empty_scheduler :: task_scheduler where
  "empty_scheduler =
     \<lparr>task_queue = [], task_map = Map.empty, results = Map.empty,
      dependency_graph = (\<lambda>_. []), dependents = (\<lambda>_. [])\<rparr>"

text \<open>The test inside the loop of \<^verbatim>\<open>can_execute\<close>: the task is in the map and completed.\<close>

definition completed_in :: "(string \<rightharpoonup> agent_task) \<Rightarrow> string \<Rightarrow> bool" where
  "completed_in m dep_id =
     (case m dep_id of None \<Rightarrow> False | Some t \<Rightarrow> t_status t = TASK_STATUS_COMPLETED)"

definition can_execute :: "task_scheduler \<Rightarrow> agent_task \<Rightarrow> bool" where
  "can_execute s task = list_all (completed_in (task_map s)) (dependencies task)"

text \<open>The loop of \<^verbatim>\<open>submit\<close> that enters the task into the two graph members.\<close>

fun add_to_graph :: "string \<Rightarrow> string list \<Rightarrow> task_scheduler \<Rightarrow> task_scheduler" where
  "add_to_graph tid [] s = s"
| "add_to_graph tid (dep # rest) s =
     add_to_graph tid rest
       (s\<lparr>dependency_graph := (dependency_graph s)(tid := dependency_graph s tid @ [dep]),
          dependents := (dependents s)
            (dep := (if tid \<in> set (dependents s dep) then dependents s dep
                     else dependents s dep @ [tid]))\<rparr>)"

definition submit :: "heap_ops \<Rightarrow> task_scheduler \<Rightarrow> agent_task \<Rightarrow> task_scheduler" where
  "submit h s task =
     (let s1 = s\<lparr>task_map := (task_map s)(task_id task \<mapsto> task)\<rparr>;
          s2 = add_to_graph (task_id task) (dependencies task) s1
      in if can_execute s2 task
         then s2\<lparr>task_queue := push_heap h (task_queue s2 @ [task])\<rparr>
         else s2)"

text \<open>
  The scan of \<^verbatim>\<open>get_next_task\<close>: the first task of the vector without role requirement or
  with a required role among the agent's; the result is the task and the vector without it.
\<close>

fun find_task ::
  "string list \<Rightarrow> agent_task list \<Rightarrow> agent_task list \<Rightarrow> (agent_task \<times> agent_task list) option" where
  "find_task agent_roles before [] = None"
| "find_task agent_roles before (t # rest) =
     (if required_roles t = [] \<or> list_ex (\<lambda>r. r \<in> set (required_roles t)) agent_roles
      then Some (t, before @ rest)
      else find_task agent_roles (before @ [t]) rest)"

definition get_next_task ::
  "heap_ops \<Rightarrow> task_scheduler \<Rightarrow> string list \<Rightarrow> agent_task option \<times> task_scheduler" where
  "get_next_task h s agent_roles =
     (if task_queue s = [] then (None, s)
      else (case find_task agent_roles [] (task_queue s) of
              None \<Rightarrow> (None, s)
            | Some (task, remaining) \<Rightarrow> (Some task, s\<lparr>task_queue := make_heap h remaining\<rparr>)))"

definition update_status :: "task_scheduler \<Rightarrow> string \<Rightarrow> task_status \<Rightarrow> string \<Rightarrow> task_scheduler" where
  "update_status s tid new_status aid =
     (case task_map s tid of
        None \<Rightarrow> s
      | Some t \<Rightarrow>
          (let t1 = t\<lparr>t_status := new_status\<rparr>;
               t2 = (if aid \<noteq> [] then t1\<lparr>assigned_agent_id := aid\<rparr> else t1)
           in s\<lparr>task_map := (task_map s)(tid \<mapsto> t2)\<rparr>))"

text \<open>\<^verbatim>\<open>notify_dependents\<close>, as the loop over the dependents of the task.\<close>

fun notify_loop :: "heap_ops \<Rightarrow> string list \<Rightarrow> task_scheduler \<Rightarrow> task_scheduler" where
  "notify_loop h [] s = s"
| "notify_loop h (dependent_id # rest) s =
     notify_loop h rest
       (case task_map s dependent_id of
          None \<Rightarrow> s
        | Some t \<Rightarrow>
            if can_execute s t then s\<lparr>task_queue := push_heap h (task_queue s @ [t])\<rparr> else s)"

definition notify_dependents :: "heap_ops \<Rightarrow> task_scheduler \<Rightarrow> string \<Rightarrow> task_scheduler" where
  "notify_dependents h s tid = notify_loop h (dependents s tid) s"

definition complete_task ::
  "heap_ops \<Rightarrow> task_scheduler \<Rightarrow> string \<Rightarrow> task_result \<Rightarrow> task_scheduler" where
  "complete_task h s tid res =
     (case task_map s tid of
        None \<Rightarrow> s
      | Some t \<Rightarrow>
          notify_dependents h
            (s\<lparr>task_map := (task_map s)(tid \<mapsto> t\<lparr>t_status := TASK_STATUS_COMPLETED\<rparr>),
               results := (results s)(tid \<mapsto> res)\<rparr>)
            tid)"

text \<open>
  \<^verbatim>\<open>fail_task\<close>. The synthesized result leaves \<^verbatim>\<open>duration_ms\<close> uninitialised; its
  indeterminate value is the argument \<open>junk\<close>.
\<close>

definition fail_task :: "task_scheduler \<Rightarrow> string \<Rightarrow> string \<Rightarrow> int \<Rightarrow> task_scheduler" where
  "fail_task s tid err junk =
     (case task_map s tid of
        None \<Rightarrow> s
      | Some t \<Rightarrow>
          s\<lparr>task_map := (task_map s)(tid \<mapsto> t\<lparr>t_status := TASK_STATUS_FAILED\<rparr>),
            results := (results s)(tid \<mapsto>
              \<lparr>tr_task_id = tid, tr_agent_id = '''', tr_result = '''', success = False,
               tr_error_message = err, duration_ms = junk\<rparr>)\<rparr>)"

definition cancel_task :: "task_scheduler \<Rightarrow> string \<Rightarrow> task_scheduler" where
  "cancel_task s tid =
     (case task_map s tid of
        None \<Rightarrow> s
      | Some t \<Rightarrow>
          s\<lparr>task_map := (task_map s)(tid \<mapsto> t\<lparr>t_status := TASK_STATUS_CANCELLED\<rparr>),
            task_queue := filter (\<lambda>q. task_id q \<noteq> tid) (task_queue s)\<rparr>)"

text \<open>The public operations as values, and a scheduler driven by a sequence of them.\<close>

datatype sched_op =
    Submit agent_task
  | Get_Next_Task "string list"
  | Update_Status string task_status string
  | Complete_Task string task_result
  | Fail_Task string string int
  | Cancel_Task string

fun exec_op :: "heap_ops \<Rightarrow> task_scheduler \<Rightarrow> sched_op \<Rightarrow> task_scheduler" where
  "exec_op h s (Submit task) = submit h s task"
| "exec_op h s (Get_Next_Task agent_roles) = snd (get_next_task h s agent_roles)"
| "exec_op h s (Update_Status tid new_status aid) = update_status s tid new_status aid"
| "exec_op h s (Complete_Task tid res) = complete_task h s tid res"
| "exec_op h s (Fail_Task tid err junk) = fail_task s tid err junk"
| "exec_op h s (Cancel_Task tid) = cancel_task s tid"

fun run_ops :: "heap_ops \<Rightarrow> task_scheduler \<Rightarrow> sched_op list \<Rightarrow> task_scheduler" where
  "run_ops h s [] = s"
| "run_ops h s (op # ops) = run_ops h (exec_op h s op) ops"

text \<open>
  An operation keeps completed tasks completed when it does not take the status
  \<^verbatim>\<open>COMPLETED\<close> away from a task that has it: no failing or cancelling of a completed task,
  no status update of one to another status, no submission that replaces one by a task of
  another status.
\<close>

fun keeps_completed :: "task_scheduler \<Rightarrow> sched_op \<Rightarrow> bool" where
  "keeps_completed s (Submit task) =
     (if completed_in (task_map s) (task_id task) then t_status task = TASK_STATUS_COMPLETED
      else True)"
| "keeps_completed s (Update_Status tid new_status aid) =
     (if completed_in (task_map s) tid then new_status = TASK_STATUS_COMPLETED else True)"
| "keeps_completed s (Fail_Task tid err junk) = (if completed_in (task_map s) tid then False else True)"
| "keeps_completed s (Cancel_Task tid) = (if completed_in (task_map s) tid then False else True)"
| "keeps_completed s (Get_Next_Task agent_roles) = True"
| "keeps_completed s (Complete_Task tid res) = True"

fun all_keep_completed :: "heap_ops \<Rightarrow> task_scheduler \<Rightarrow> sched_op list \<Rightarrow> bool" where
  "all_keep_completed h s [] = True"
| "all_keep_completed h s (op # ops) =
     (keeps_completed s op \<and> all_keep_completed h (exec_op h s op) ops)"

text \<open>Example tasks: \<open>A\<close> without dependencies and \<open>B\<close> depending on \<open>A\<close>.\<close>

definition example_task :: "string \<Rightarrow> string list \<Rightarrow> agent_task" where
  "example_task tid deps =
     \<lparr>task_id = tid, task_type = AGENT_TASK_TYPE_CUSTOM, description = '''', parameters = JNull,
      dependencies = deps, required_roles = [], task_priority = 5, parent_task_id = '''',
      task_created_at = 0, task_deadline = 0, t_status = TASK_STATUS_PENDING,
      assigned_agent_id = ''''\<rparr>"

definition example_result :: "string \<Rightarrow> task_result" where
  "example_result tid =
     \<lparr>tr_task_id = tid, tr_agent_id = ''agent'', tr_result = ''done'', success = True,
      tr_error_message = '''', duration_ms = 1\<rparr>"

text \<open>
  One implementation of the heap routines: sorting by descending priority. A vector in
  descending order is a heap under \<^verbatim>\<open>task_compare\<close>.
\<close>

definition sorting_heap_ops :: heap_ops where
  "sorting_heap_ops =
     \<lparr>push_heap = sort_key (\<lambda>t. - task_priority t),
      make_heap = sort_key (\<lambda>t. - task_priority t)\<rparr>"

text \<open>
  The invariant of the ready queue, and the order on task maps under which it is kept:
  every queued task has all its dependencies completed; no completed task loses that
  status.
\<close>

definition queue_ready :: "task_scheduler \<Rightarrow> bool" where
  "queue_ready s \<longleftrightarrow> (\<forall>t \<in> set (task_queue s). can_execute s t)"

definition completed_mono :: "(string \<rightharpoonup> agent_task) \<Rightarrow> (string \<rightharpoonup> agent_task) \<Rightarrow> bool" where
  "completed_mono m m' \<longleftrightarrow> (\<forall>d. completed_in m d \<longrightarrow> completed_in m' d)"

section \<open>Properties of the supervisor\<close>

lemma stop_state:
  "state (stop a) = GGML_AGENT_STATE_STOPPED \<or> state (stop a) = GGML_AGENT_STATE_STOPPING"
  by (simp add: stop_def)

lemma join_state:
  "join a = Some b \<Longrightarrow> state a \<noteq> GGML_AGENT_STATE_CREATED \<Longrightarrow> state b \<noteq> GGML_AGENT_STATE_CREATED"
  by (auto simp: join_def split: if_splits)

lemma start_not_created: "state a \<noteq> GGML_AGENT_STATE_CREATED \<Longrightarrow> start a = a"
  by (simp add: start_def)

text \<open>
  After stop and join no agent is in state \<^verbatim>\<open>CREATED\<close>, so the following start changes
  nothing: the sequence stop, join, start never yields a running agent.
\<close>

lemma stop_join_start_not_running:
  assumes "join (stop a) = Some b"
  shows "start b = b \<and> state b \<noteq> GGML_AGENT_STATE_RUNNING"
proof -
  have s: "state (stop a) = GGML_AGENT_STATE_STOPPED \<or> state (stop a) = GGML_AGENT_STATE_STOPPING"
    by (rule stop_state)
  have b: "state b = GGML_AGENT_STATE_STOPPED \<or> state b = GGML_AGENT_STATE_STOPPING"
    using assms s by (auto simp: join_def split: if_splits)
  then show ?thesis by (auto simp: start_def)
qed

text \<open>
  C1 (scenario S3 of the specification). A supervisor with the default budget (3 restarts
  per minute), strategy one-for-one and two running children \<open>w1\<close>, \<open>w2\<close> handles a failure
  of \<open>w1\<close> at time 1000. The budget is not exhausted and the restart is carried out, yet
  \<open>w1\<close> ends in state \<^verbatim>\<open>STOPPED\<close>, not \<^verbatim>\<open>RUNNING\<close>: \<^verbatim>\<open>start\<close> only leaves \<^verbatim>\<open>CREATED\<close>.
  The sibling \<open>w2\<close> is untouched.
\<close>

theorem c1_one_for_one_restart_leaves_child_stopped:
  "map_option (\<lambda>s. (map state (children s), restart_history s ''w1''))
     (handle_child_failure 1000 ''w1''
        \<lparr>children =
           [\<lparr>agent_id = ''w1'', state = GGML_AGENT_STATE_RUNNING,
              should_stop = False, worker_joinable = True\<rparr>,
            \<lparr>agent_id = ''w2'', state = GGML_AGENT_STATE_RUNNING,
              should_stop = False, worker_joinable = True\<rparr>],
         strategy = GGML_AGENT_RESTART_ONE_FOR_ONE,
         max_restarts = 3,
         max_restart_window_ms = 60000,
         restart_history = (\<lambda>_. [])\<rparr>)
   = Some ([GGML_AGENT_STATE_STOPPED, GGML_AGENT_STATE_RUNNING], [1000])"
  by (simp add: handle_child_failure_def should_restart_def restart_child_def
      stop_def join_def start_def)

section \<open>Properties of the circuit breakers\<close>


lemma record_failure_open:
  "cb_state cb = CIRCUIT_OPEN \<Longrightarrow> record_failure t cb = cb\<lparr>last_failure_time := t\<rparr>"
  by (simp add: record_failure_def)

lemma record_failures_open:
  "cb_state cb = CIRCUIT_OPEN \<Longrightarrow>
   cb_state (record_failures ts cb) = CIRCUIT_OPEN \<and>
   last_state_change (record_failures ts cb) = last_state_change cb \<and>
   timeout_ms (record_failures ts cb) = timeout_ms cb"
  unfolding record_failures_def
  by (induction ts arbitrary: cb) (simp_all add: record_failure_open)

lemma record_failures_opens:
  "cb_state cb = CIRCUIT_CLOSED \<Longrightarrow> ts \<noteq> [] \<Longrightarrow>
   failure_threshold cb \<le> failure_count cb + int (length ts) \<Longrightarrow>
   cb_state (record_failures ts cb) = CIRCUIT_OPEN \<and>
   last_state_change (record_failures ts cb) \<in> set ts \<and>
   timeout_ms (record_failures ts cb) = timeout_ms cb"
proof (induction ts arbitrary: cb)
  case Nil
  then show ?case by simp
next
  case (Cons t ts)
  have step: "record_failures (t # ts) cb = record_failures ts (record_failure t cb)"
    by (simp add: record_failures_def)
  show ?case
  proof (cases "failure_threshold cb \<le> failure_count cb + 1")
    case True
    then have o: "cb_state (record_failure t cb) = CIRCUIT_OPEN"
      and l: "last_state_change (record_failure t cb) = t"
      and m: "timeout_ms (record_failure t cb) = timeout_ms cb"
      using Cons.prems(1) by (simp_all add: record_failure_def Let_def)
    show ?thesis using record_failures_open[OF o, of ts] l m by (simp add: step)
  next
    case False
    then have c: "cb_state (record_failure t cb) = CIRCUIT_CLOSED"
      and f: "failure_count (record_failure t cb) = failure_count cb + 1"
      and th: "failure_threshold (record_failure t cb) = failure_threshold cb"
      and m: "timeout_ms (record_failure t cb) = timeout_ms cb"
      using Cons.prems(1) by (simp_all add: record_failure_def Let_def)
    from False Cons.prems(3) have ne: "ts \<noteq> []" by auto
    have "failure_threshold (record_failure t cb)
            \<le> failure_count (record_failure t cb) + int (length ts)"
      using Cons.prems(3) by (simp add: f th)
    from Cons.IH[OF c ne this] show ?thesis by (simp add: step m)
  qed
qed

lemma ggml_record_failure_open:
  "gcb_state cb = GGML_AGENT_CIRCUIT_OPEN \<Longrightarrow>
   ggml_record_failure t cb = cb\<lparr>gcb_last_failure_time_ms := t\<rparr>"
  by (simp add: ggml_record_failure_def)

lemma ggml_record_failures_open:
  "gcb_state cb = GGML_AGENT_CIRCUIT_OPEN \<Longrightarrow> ts \<noteq> [] \<Longrightarrow>
   gcb_state (ggml_record_failures ts cb) = GGML_AGENT_CIRCUIT_OPEN \<and>
   gcb_last_failure_time_ms (ggml_record_failures ts cb) = last ts \<and>
   gcb_open_timeout_ms (ggml_record_failures ts cb) = gcb_open_timeout_ms cb"
  unfolding ggml_record_failures_def
proof (induction ts arbitrary: cb)
  case Nil then show ?case by simp
next
  case (Cons t ts)
  then show ?case
    by (cases ts) (simp_all add: ggml_record_failure_open)
qed

lemma ggml_record_failures_opens:
  "gcb_state cb = GGML_AGENT_CIRCUIT_CLOSED \<Longrightarrow> ts \<noteq> [] \<Longrightarrow>
   gcb_failure_count cb < gcb_failure_threshold cb \<or> gcb_failure_count cb = 0 \<Longrightarrow>
   unat (gcb_failure_threshold cb) \<le> unat (gcb_failure_count cb) + length ts \<Longrightarrow>
   gcb_state (ggml_record_failures ts cb) = GGML_AGENT_CIRCUIT_OPEN \<and>
   gcb_last_failure_time_ms (ggml_record_failures ts cb) = last ts \<and>
   gcb_open_timeout_ms (ggml_record_failures ts cb) = gcb_open_timeout_ms cb"
proof (induction ts arbitrary: cb)
  case Nil
  then show ?case by simp
next
  case (Cons t ts)
  have step: "ggml_record_failures (t # ts) cb = ggml_record_failures ts (ggml_record_failure t cb)"
    by (simp add: ggml_record_failures_def)
  have "unat (gcb_failure_count cb) + unat (1 :: 32 word) < 2 ^ LENGTH(32)"
    using Cons.prems(3) unsigned_less[of "gcb_failure_threshold cb", where 'a=nat]
    by (auto simp: word_less_nat_alt)
  then have nowrap: "unat (gcb_failure_count cb + 1) = unat (gcb_failure_count cb) + 1"
    by (simp add: unat_add_lem[THEN iffD1])
  show ?case
  proof (cases "gcb_failure_threshold cb \<le> gcb_failure_count cb + 1")
    case True
    then have o: "gcb_state (ggml_record_failure t cb) = GGML_AGENT_CIRCUIT_OPEN"
      and l: "gcb_last_failure_time_ms (ggml_record_failure t cb) = t"
      and m: "gcb_open_timeout_ms (ggml_record_failure t cb) = gcb_open_timeout_ms cb"
      using Cons.prems(1) by (simp_all add: ggml_record_failure_def Let_def)
    show ?thesis
    proof (cases "ts = []")
      case True
      then show ?thesis using o l m by (simp add: step ggml_record_failures_def)
    next
      case False
      from ggml_record_failures_open[OF o False] show ?thesis using m False by (simp add: step)
    qed
  next
    case False
    then have c: "gcb_state (ggml_record_failure t cb) = GGML_AGENT_CIRCUIT_CLOSED"
      and f: "gcb_failure_count (ggml_record_failure t cb) = gcb_failure_count cb + 1"
      and th: "gcb_failure_threshold (ggml_record_failure t cb) = gcb_failure_threshold cb"
      and m: "gcb_open_timeout_ms (ggml_record_failure t cb) = gcb_open_timeout_ms cb"
      using Cons.prems(1) by (simp_all add: ggml_record_failure_def Let_def)
    from False have lt: "gcb_failure_count cb + 1 < gcb_failure_threshold cb" by simp
    then have lt': "unat (gcb_failure_count cb) + 1 < unat (gcb_failure_threshold cb)"
      by (simp add: word_less_nat_alt nowrap)
    with Cons.prems(4) have ne: "ts \<noteq> []" by auto
    have h3: "gcb_failure_count (ggml_record_failure t cb) < gcb_failure_threshold (ggml_record_failure t cb)
              \<or> gcb_failure_count (ggml_record_failure t cb) = 0"
      using lt by (simp add: f th)
    have h4: "unat (gcb_failure_threshold (ggml_record_failure t cb))
            \<le> unat (gcb_failure_count (ggml_record_failure t cb)) + length ts"
      using Cons.prems(4) by (simp add: f th nowrap)
    from Cons.IH[OF c ne h3 h4] show ?thesis using ne by (simp add: step m)
  qed
qed


lemma allow_request_half_open:
  "cb_state hb = CIRCUIT_HALF_OPEN \<Longrightarrow> allow_request now hb = (True, hb)"
  by (simp add: allow_request_def)

lemma ggml_allow_request_half_open:
  "gcb_state h = GGML_AGENT_CIRCUIT_HALF_OPEN \<Longrightarrow> ggml_allow_request now h = (True, h)"
  by (simp add: ggml_allow_request_def)

text \<open>
  C2, as the code has it. From a closed breaker (failure count not negative), a non-empty
  run of at least \<open>failure_threshold\<close> consecutive \<open>record_failure\<close> calls leaves the
  breaker open. An open breaker refuses \<open>allow_request\<close> until the timeout has elapsed and
  then grants it and becomes half-open; the timeout runs from the state change in
  \<open>circuit_breaker\<close> and from the most recent failure in \<open>ggml_agent_circuit_breaker\<close>.
  A half-open breaker grants every \<open>allow_request\<close> and is left unchanged by it: there is
  no limit of one probe.
\<close>

theorem c2_breaker_opens_then_half_open_allows_all:
  assumes "cb_state cb = CIRCUIT_CLOSED" and "0 \<le> failure_count cb"
    and "ts \<noteq> []" and "failure_threshold cb \<le> int (length ts)"
    and "gcb_state g = GGML_AGENT_CIRCUIT_CLOSED" and "gcb_failure_count g = 0"
    and "gts \<noteq> []" and "unat (gcb_failure_threshold g) \<le> length gts"
  shows
    "(let cb' = record_failures ts cb in
        cb_state cb' = CIRCUIT_OPEN \<and> last_state_change cb' \<in> set ts \<and>
        (\<forall>now. allow_request now cb' =
           (if now - last_state_change cb' \<ge> timeout_ms cb
            then (True, cb'\<lparr>cb_state := CIRCUIT_HALF_OPEN, success_count := 0,
                             last_state_change := now\<rparr>)
            else (False, cb')))) \<and>
     (\<forall>hb now. cb_state hb = CIRCUIT_HALF_OPEN \<longrightarrow> allow_request now hb = (True, hb)) \<and>
     (let g' = ggml_record_failures gts g in
        gcb_state g' = GGML_AGENT_CIRCUIT_OPEN \<and> gcb_last_failure_time_ms g' = last gts \<and>
        (\<forall>now. ggml_allow_request now g' =
           (if now - last gts \<ge> gcb_open_timeout_ms g
            then (True, g'\<lparr>gcb_state := GGML_AGENT_CIRCUIT_HALF_OPEN, gcb_success_count := 0\<rparr>)
            else (False, g')))) \<and>
     (\<forall>h now. gcb_state h = GGML_AGENT_CIRCUIT_HALF_OPEN \<longrightarrow> ggml_allow_request now h = (True, h))"
proof -
  have "failure_threshold cb \<le> failure_count cb + int (length ts)"
    using assms(2,4) by simp
  from record_failures_opens[OF assms(1,3) this]
  have a: "cb_state (record_failures ts cb) = CIRCUIT_OPEN"
    and b: "last_state_change (record_failures ts cb) \<in> set ts"
    and c: "timeout_ms (record_failures ts cb) = timeout_ms cb"
    by simp_all
  have d: "allow_request now (record_failures ts cb) =
           (if now - last_state_change (record_failures ts cb) \<ge> timeout_ms cb
            then (True, (record_failures ts cb)\<lparr>cb_state := CIRCUIT_HALF_OPEN, success_count := 0,
                             last_state_change := now\<rparr>)
            else (False, record_failures ts cb))" for now
    using a c by (simp add: allow_request_def)
  have "unat (gcb_failure_threshold g) \<le> unat (gcb_failure_count g) + length gts"
    using assms(6,8) by simp
  from ggml_record_failures_opens[OF assms(5,7) _ this] assms(6)
  have e: "gcb_state (ggml_record_failures gts g) = GGML_AGENT_CIRCUIT_OPEN"
    and f: "gcb_last_failure_time_ms (ggml_record_failures gts g) = last gts"
    and h: "gcb_open_timeout_ms (ggml_record_failures gts g) = gcb_open_timeout_ms g"
    by simp_all
  have i: "ggml_allow_request now (ggml_record_failures gts g) =
           (if now - last gts \<ge> gcb_open_timeout_ms g
            then (True, (ggml_record_failures gts g)\<lparr>gcb_state := GGML_AGENT_CIRCUIT_HALF_OPEN,
                     gcb_success_count := 0\<rparr>)
            else (False, ggml_record_failures gts g))" for now
    using e f h by (simp add: ggml_allow_request_def)
  show ?thesis
    unfolding Let_def
    using a b d e f i allow_request_half_open ggml_allow_request_half_open by blast
qed

text \<open>
  The theorem at a breaker with threshold 3 and timeout 100 after four failures at times
  10, 20, 30, 40: the state changed at 30 and the last failure was at 40.
\<close>

theorem c2_breaker_witness:
  "cb_state (circuit_breaker_new 3 100 2 0) = CIRCUIT_CLOSED \<and>
   failure_count (circuit_breaker_new 3 100 2 0) = 0 \<and>
   failure_threshold (circuit_breaker_new 3 100 2 0) = 3 \<and>
   cb_state (record_failures [10, 20, 30, 40] (circuit_breaker_new 3 100 2 0)) = CIRCUIT_OPEN \<and>
   last_state_change (record_failures [10, 20, 30, 40] (circuit_breaker_new 3 100 2 0)) = 30 \<and>
   fst (allow_request 129 (record_failures [10, 20, 30, 40] (circuit_breaker_new 3 100 2 0))) = False \<and>
   fst (allow_request 130 (record_failures [10, 20, 30, 40] (circuit_breaker_new 3 100 2 0))) = True \<and>
   cb_state (snd (allow_request 130 (record_failures [10, 20, 30, 40] (circuit_breaker_new 3 100 2 0))))
     = CIRCUIT_HALF_OPEN \<and>
   gcb_state (ggml_record_failures [10, 20, 30, 40]
      \<lparr>gcb_state = GGML_AGENT_CIRCUIT_CLOSED, gcb_failure_count = 0, gcb_success_count = 0,
       gcb_failure_threshold = 3, gcb_success_threshold = 2, gcb_open_timeout_ms = 100,
       gcb_last_failure_time_ms = 0\<rparr>) = GGML_AGENT_CIRCUIT_OPEN \<and>
   fst (ggml_allow_request 139 (ggml_record_failures [10, 20, 30, 40]
      \<lparr>gcb_state = GGML_AGENT_CIRCUIT_CLOSED, gcb_failure_count = 0, gcb_success_count = 0,
       gcb_failure_threshold = 3, gcb_success_threshold = 2, gcb_open_timeout_ms = 100,
       gcb_last_failure_time_ms = 0\<rparr>)) = False \<and>
   fst (ggml_allow_request 140 (ggml_record_failures [10, 20, 30, 40]
      \<lparr>gcb_state = GGML_AGENT_CIRCUIT_CLOSED, gcb_failure_count = 0, gcb_success_count = 0,
       gcb_failure_threshold = 3, gcb_success_threshold = 2, gcb_open_timeout_ms = 100,
       gcb_last_failure_time_ms = 0\<rparr>)) = True"
  using c2_breaker_opens_then_half_open_allows_all
    [of "circuit_breaker_new 3 100 2 0" "[10, 20, 30, 40]"
        "\<lparr>gcb_state = GGML_AGENT_CIRCUIT_CLOSED, gcb_failure_count = 0, gcb_success_count = 0,
          gcb_failure_threshold = 3, gcb_success_threshold = 2, gcb_open_timeout_ms = 100,
          gcb_last_failure_time_ms = 0\<rparr>" "[10, 20, 30, 40]"]
  by (simp add: circuit_breaker_new_def record_failures_def record_failure_def
      allow_request_def ggml_record_failures_def ggml_record_failure_def
      ggml_allow_request_def Let_def)

text \<open>
  The single probe of the claim does not exist: after three failures at time 0 (threshold
  3, timeout 100) the request at time 100 is granted and makes the breaker half-open, and
  the next request at time 101, with no success or failure recorded in between, is
  granted as well. Both breakers behave so.
\<close>

theorem c2_half_open_allows_more_than_one_probe:
  "cb_state (record_failures [0, 0, 0] (circuit_breaker_new 3 100 2 0)) = CIRCUIT_OPEN \<and>
   fst (allow_request 50 (record_failures [0, 0, 0] (circuit_breaker_new 3 100 2 0))) = False \<and>
   allow_request 100 (record_failures [0, 0, 0] (circuit_breaker_new 3 100 2 0)) =
     (True,
      \<lparr>failure_threshold = 3, timeout_ms = 100, success_threshold = 2,
       cb_state = CIRCUIT_HALF_OPEN, failure_count = 3, success_count = 0,
       last_failure_time = 0, last_state_change = 100\<rparr>) \<and>
   allow_request 101
      \<lparr>failure_threshold = 3, timeout_ms = 100, success_threshold = 2,
       cb_state = CIRCUIT_HALF_OPEN, failure_count = 3, success_count = 0,
       last_failure_time = 0, last_state_change = 100\<rparr> =
     (True,
      \<lparr>failure_threshold = 3, timeout_ms = 100, success_threshold = 2,
       cb_state = CIRCUIT_HALF_OPEN, failure_count = 3, success_count = 0,
       last_failure_time = 0, last_state_change = 100\<rparr>) \<and>
   fst (ggml_allow_request 101
      (snd (ggml_allow_request 100
        (ggml_record_failures [0, 0, 0]
          \<lparr>gcb_state = GGML_AGENT_CIRCUIT_CLOSED, gcb_failure_count = 0, gcb_success_count = 0,
           gcb_failure_threshold = 3, gcb_success_threshold = 2, gcb_open_timeout_ms = 100,
           gcb_last_failure_time_ms = 0\<rparr>)))) = True"
  by (simp add: circuit_breaker_new_def record_failures_def record_failure_def
      allow_request_def ggml_record_failures_def ggml_record_failure_def
      ggml_allow_request_def Let_def)

section \<open>Properties of single-precision rounding\<close>

text \<open>
  The exponent search of \<open>round_float\<close> finds the exponent \<open>e\<close> of a number between
  \<open>2 powi e\<close> and \<open>2 powi (e + 1)\<close>, and \<open>-126\<close> for a smaller one; from \<open>2 powi 128\<close>
  on it finds none. So rounding can start from any exponent that passes this test.
\<close>

lemma find_upto_first:
  assumes "l \<le> e" "e \<le> u" "P e" "\<And>e'. l \<le> e' \<Longrightarrow> e' < e \<Longrightarrow> \<not> P e'"
  shows "find P [l..u] = Some e"
proof -
  let ?i = "nat (e - l)"
  have len: "?i < length [l..u]" using assms(1,2) by simp
  have nth: "[l..u] ! j = l + int j" if "j \<le> ?i" for j
    using that assms(1,2) by (intro nth_upto) linarith
  have "P ([l..u] ! ?i)" using nth[of ?i] assms(1,3) by simp
  moreover have "e = [l..u] ! ?i" using nth[of ?i] assms(1) by simp
  moreover have "\<not> P ([l..u] ! j)" if "j < ?i" for j
  proof -
    from that have "[l..u] ! j = l + int j" by (intro nth) simp
    moreover from that have "l \<le> l + int j" "l + int j < e" by linarith+
    ultimately show ?thesis using assms(4) by simp
  qed
  ultimately show ?thesis unfolding find_Some_iff using len by blast
qed

lemma round_float_at:
  assumes "- 126 \<le> e" "e \<le> 127" "\<bar>x\<bar> < 2 powi (e + 1)" "e = - 126 \<or> 2 powi e \<le> \<bar>x\<bar>"
  shows "round_float x =
     (let y = of_int (round_to_even (x / 2 powi (e - 23))) * 2 powi (e - 23)
      in if 2 powi 128 \<le> \<bar>y\<bar> then Infinity (y < 0) else Finite y)"
proof -
  have "find (\<lambda>e. \<bar>x\<bar> < 2 powi (e + 1)) [-126..127] = Some e"
  proof (rule find_upto_first)
    fix e' :: int
    assume e': "- 126 \<le> e'" "e' < e"
    with assms(4) have lo: "2 powi e \<le> \<bar>x\<bar>" by auto
    from e'(2) have "(2::rat) powi (e' + 1) \<le> 2 powi e" by (intro power_int_increasing) simp_all
    with lo show "\<not> \<bar>x\<bar> < 2 powi (e' + 1)" by simp
  qed (use assms in simp_all)
  then show ?thesis by (simp only: round_float_def option.case)
qed

lemma round_float_overflow:
  assumes "2 powi 128 \<le> \<bar>x\<bar>"
  shows "round_float x = Infinity (x < 0)"
proof -
  have "\<not> \<bar>x\<bar> < 2 powi (e + 1)" if "e \<in> set [-126..127]" for e
  proof -
    from that have "e \<le> 127" by (simp only: set_upto atLeastAtMost_iff)
    then have "e + 1 \<le> 128" by linarith
    then have "(2::rat) powi (e + 1) \<le> 2 powi 128" by (intro power_int_increasing) simp_all
    with assms show ?thesis by simp
  qed
  then have "find (\<lambda>e. \<bar>x\<bar> < 2 powi (e + 1)) [-126..127] = None"
    unfolding find_None_iff by blast
  then show ?thesis by (simp only: round_float_def option.case)
qed

lemma round_float_code [code]:
  "round_float x =
     (if 2 powi 128 \<le> \<bar>x\<bar> then Infinity (x < 0)
      else
        (let e = float_exponent x
         in if - 126 \<le> e \<and> e \<le> 127 \<and> \<bar>x\<bar> < 2 powi (e + 1) \<and> (e = - 126 \<or> 2 powi e \<le> \<bar>x\<bar>)
            then (let y = of_int (round_to_even (x / 2 powi (e - 23))) * 2 powi (e - 23)
                  in if 2 powi 128 \<le> \<bar>y\<bar> then Infinity (y < 0) else Finite y)
            else (case find (\<lambda>e. \<bar>x\<bar> < 2 powi (e + 1)) [-126..127] of
                    None \<Rightarrow> Infinity (x < 0)
                  | Some e \<Rightarrow>
                      (let y = of_int (round_to_even (x / 2 powi (e - 23))) * 2 powi (e - 23)
                       in if 2 powi 128 \<le> \<bar>y\<bar> then Infinity (y < 0) else Finite y))))"
proof (cases "2 powi 128 \<le> \<bar>x\<bar>")
  case True
  then show ?thesis by (simp add: round_float_overflow)
next
  case small: False
  show ?thesis
  proof (cases "- 126 \<le> float_exponent x \<and> float_exponent x \<le> 127 \<and>
              \<bar>x\<bar> < 2 powi (float_exponent x + 1) \<and>
              (float_exponent x = - 126 \<or> 2 powi float_exponent x \<le> \<bar>x\<bar>)")
    case True
    then have "round_float x =
       (let y = of_int (round_to_even (x / 2 powi (float_exponent x - 23))) * 2 powi (float_exponent x - 23)
        in if 2 powi 128 \<le> \<bar>y\<bar> then Infinity (y < 0) else Finite y)"
      by (intro round_float_at) simp_all
    then show ?thesis using True small by (simp add: Let_def)
  next
    case False
    then show ?thesis using small by (simp only: Let_def if_False round_float_def)
  qed
qed

section \<open>Properties of the consensus tally\<close>

lemma float_less_trans: "float_less a b \<Longrightarrow> float_less b c \<Longrightarrow> float_less a c"
  by (cases a; cases b; cases c) auto

lemma float_less_le_trans: "float_less a b \<Longrightarrow> float_le b c \<Longrightarrow> float_less a c"
  by (cases a; cases b; cases c) auto

lemma float_less_not_le: "float_less a b \<Longrightarrow> \<not> float_le b a"
  by (cases a; cases b) auto

lemma vote_weight_spec: "vote_weight v agent = weight_of_vote v agent"
  by (simp add: vote_weight_def weight_of_vote_def split: consensus_type.splits)

lemma map_of_add_count:
  "map_of (add_count opt w cs) =
     (map_of cs)(opt \<mapsto> float_add (case map_of cs opt of None \<Rightarrow> Finite 0 | Some c \<Rightarrow> c) w)"
  by (induction cs) (auto simp: fun_eq_iff)

lemma keys_add_count: "fst ` set (add_count opt w cs) = insert opt (fst ` set cs)"
proof -
  have "map fst (add_count opt w cs) =
          (if opt \<in> fst ` set cs then map fst cs else map fst cs @ [opt])"
    by (induction cs) (auto simp: rev_image_eqI)
  then have "set (map fst (add_count opt w cs)) = insert opt (fst ` set cs)"
    by (simp only: set_map[symmetric] set_append split: if_splits) auto
  then show ?thesis by (simp only: set_map)
qed

lemma map_of_Some_key: "map_of cs k = Some c \<Longrightarrow> k \<in> fst ` set cs"
  by (metis domI dom_map_of_conv_image_fst)

lemma distinct_add_count:
  "distinct (map fst cs) \<Longrightarrow> distinct (map fst (add_count opt w cs))"
proof (induction cs)
  case Nil
  then show ?case by simp
next
  case (Cons a cs)
  obtain k c where a: "a = (k, c)" by (cases a)
  from Cons have d: "distinct (map fst (add_count opt w cs))" and k: "k \<notin> fst ` set cs"
    by (auto simp: a)
  show ?case
  proof (cases "k = opt")
    case True
    then show ?thesis using Cons.prems by (simp add: a)
  next
    case False
    then have "k \<notin> fst ` set (add_count opt w cs)" using k by (simp add: keys_add_count)
    then show ?thesis using False d by (simp add: a)
  qed
qed

lemma count_votes_gen:
  "distinct (map fst cs) \<Longrightarrow> count_votes v vs (cs, t) = (cs', t') \<Longrightarrow>
   distinct (map fst cs') \<and>
   t' = foldl float_add t (map (\<lambda>(agent, o'). vote_weight v agent) vs) \<and>
   (\<forall>opt. map_of cs' opt =
      (if opt \<in> fst ` set cs \<union> snd ` set vs
       then Some (foldl float_add (case map_of cs opt of None \<Rightarrow> Finite 0 | Some c \<Rightarrow> c)
                    (weights_for v vs opt))
       else None))"
proof (induction vs arbitrary: cs t)
  case Nil
  then show ?case
    by (auto simp: weights_for_def map_of_eq_None_iff split: option.splits)
next
  case (Cons a vs)
  obtain agent o' where a: "a = (agent, o')" by (cases a)
  let ?cs1 = "add_count o' (vote_weight v agent) cs"
  from Cons.prems(2)
  have run: "count_votes v vs (?cs1, float_add t (vote_weight v agent)) = (cs', t')"
    by (simp add: a)
  from Cons.IH[OF distinct_add_count[OF Cons.prems(1)] run]
  have d: "distinct (map fst cs')"
    and t: "t' = foldl float_add (float_add t (vote_weight v agent))
                   (map (\<lambda>(agent, o'). vote_weight v agent) vs)"
    and m: "\<And>opt. map_of cs' opt =
      (if opt \<in> fst ` set ?cs1 \<union> snd ` set vs
       then Some (foldl float_add (case map_of ?cs1 opt of None \<Rightarrow> Finite 0 | Some c \<Rightarrow> c)
                    (weights_for v vs opt))
       else None)"
    by auto
  have "map_of cs' opt =
      (if opt \<in> fst ` set cs \<union> snd ` set (a # vs)
       then Some (foldl float_add (case map_of cs opt of None \<Rightarrow> Finite 0 | Some c \<Rightarrow> c)
                    (weights_for v (a # vs) opt))
       else None)" for opt
    unfolding m[of opt]
    by (auto simp: a keys_add_count map_of_add_count weights_for_def map_of_eq_None_iff
        vote_weight_spec split: option.splits dest: map_of_Some_key)
  then show ?case using d t by (simp add: a)
qed

lemma vote_counts_map_of:
  "map_of (vote_counts v) opt =
     (if opt \<in> snd ` set (votes v) then Some (weighted_count v opt) else None)"
  and vote_counts_distinct: "distinct (map fst (vote_counts v))"
  and vote_counts_total: "snd (count_votes v (votes v) ([], Finite 0)) = total_weight_of v"
proof -
  obtain cs' t' where r: "count_votes v (votes v) ([], Finite 0) = (cs', t')"
    by (cases "count_votes v (votes v) ([], Finite 0)")
  from count_votes_gen[OF _ r]
  show "map_of (vote_counts v) opt =
     (if opt \<in> snd ` set (votes v) then Some (weighted_count v opt) else None)"
    and "distinct (map fst (vote_counts v))"
    and "snd (count_votes v (votes v) ([], Finite 0)) = total_weight_of v"
    by (simp_all add: vote_counts_def r weighted_count_def total_weight_of_def vote_weight_spec)
qed

lemma vote_counts_mem:
  "(opt, c) \<in> set (vote_counts v) \<longleftrightarrow> opt \<in> snd ` set (votes v) \<and> c = weighted_count v opt"
proof -
  have "(opt, c) \<in> set (vote_counts v) \<longleftrightarrow> map_of (vote_counts v) opt = Some c"
    using vote_counts_distinct[of v] by simp
  then show ?thesis by (simp add: vote_counts_map_of) auto
qed

lemma count_votes_pair:
  "count_votes v (votes v) ([], Finite 0) = (vote_counts v, total_weight_of v)"
  using vote_counts_total[of v] by (simp add: vote_counts_def prod_eq_iff)

text \<open>
  The scan for the winner: either the maximum never moves, and then no entry is greater
  than the start value; or it ends on an entry that is greater than the start value, that
  no entry before it reaches and no entry after it exceeds.
\<close>

lemma find_winner_spec:
  "find_winner xs (w0, m0) = (w, m) \<Longrightarrow>
     (w = w0 \<and> m = m0 \<and> (\<forall>(opt, c) \<in> set xs. \<not> float_less m0 c)) \<or>
     (\<exists>pre post. xs = pre @ (w, m) # post \<and> float_less m0 m \<and>
        (\<forall>(opt, c) \<in> set pre. \<not> float_le m c) \<and> (\<forall>(opt, c) \<in> set post. \<not> float_less m c))"
proof (induction xs arbitrary: w0 m0)
  case Nil
  then show ?case by simp
next
  case (Cons a xs)
  obtain opt c where a: "a = (opt, c)" by (cases a)
  show ?case
  proof (cases "float_less m0 c")
    case True
    with Cons.prems have "find_winner xs (opt, c) = (w, m)" by (simp add: a)
    from Cons.IH[OF this] show ?thesis
    proof
      assume "w = opt \<and> m = c \<and> (\<forall>(opt, c') \<in> set xs. \<not> float_less c c')"
      then have "a # xs = [] @ (w, m) # xs \<and> float_less m0 m \<and>
                 (\<forall>(opt, c) \<in> set []. \<not> float_le m c) \<and>
                 (\<forall>(opt, c) \<in> set xs. \<not> float_less m c)"
        using True by (auto simp: a)
      then show ?thesis by blast
    next
      assume "\<exists>pre post. xs = pre @ (w, m) # post \<and> float_less c m \<and>
        (\<forall>(opt, c) \<in> set pre. \<not> float_le m c) \<and> (\<forall>(opt, c) \<in> set post. \<not> float_less m c)"
      then obtain pre post where p: "xs = pre @ (w, m) # post" "float_less c m"
        "\<forall>(opt, c) \<in> set pre. \<not> float_le m c" "\<forall>(opt, c) \<in> set post. \<not> float_less m c"
        by blast
      have "float_less m0 m" using True p(2) by (rule float_less_trans)
      moreover have "\<not> float_le m c" using p(2) by (rule float_less_not_le)
      ultimately have "a # xs = (a # pre) @ (w, m) # post \<and> float_less m0 m \<and>
          (\<forall>(opt, c) \<in> set (a # pre). \<not> float_le m c) \<and>
          (\<forall>(opt, c) \<in> set post. \<not> float_less m c)"
        using p(1,3,4) by (simp add: a)
      then show ?thesis by blast
    qed
  next
    case False
    with Cons.prems have "find_winner xs (w0, m0) = (w, m)" by (simp add: a)
    from Cons.IH[OF this] show ?thesis
    proof
      assume "w = w0 \<and> m = m0 \<and> (\<forall>(opt, c) \<in> set xs. \<not> float_less m0 c)"
      then show ?thesis using False by (auto simp: a)
    next
      assume "\<exists>pre post. xs = pre @ (w, m) # post \<and> float_less m0 m \<and>
        (\<forall>(opt, c) \<in> set pre. \<not> float_le m c) \<and> (\<forall>(opt, c) \<in> set post. \<not> float_less m c)"
      then obtain pre post where p: "xs = pre @ (w, m) # post" "float_less m0 m"
        "\<forall>(opt, c) \<in> set pre. \<not> float_le m c" "\<forall>(opt, c) \<in> set post. \<not> float_less m c"
        by blast
      have "\<not> float_le m c"
      proof
        assume "float_le m c"
        with p(2) have "float_less m0 c" by (rule float_less_le_trans)
        with False show False ..
      qed
      then have "a # xs = (a # pre) @ (w, m) # post \<and> float_less m0 m \<and>
          (\<forall>(opt, c) \<in> set (a # pre). \<not> float_le m c) \<and>
          (\<forall>(opt, c) \<in> set post. \<not> float_less m c)"
        using p by (simp add: a)
      then show ?thesis by blast
    qed
  qed
qed

lemma winner_of_counts:
  assumes perm: "set (bucket_order (vote_counts v)) = set (vote_counts v)"
    and fw: "find_winner (bucket_order (vote_counts v)) ('''', Finite 0) = (w, m)"
  shows "((\<forall>opt \<in> snd ` set (votes v). \<not> float_less (Finite 0) (weighted_count v opt)) \<longrightarrow>
            w = '''' \<and> m = Finite 0) \<and>
         ((\<exists>opt \<in> snd ` set (votes v). float_less (Finite 0) (weighted_count v opt)) \<longrightarrow>
            w \<in> snd ` set (votes v) \<and> m = weighted_count v w \<and> float_less (Finite 0) m \<and>
            (\<forall>opt \<in> snd ` set (votes v). \<not> float_less (weighted_count v w) (weighted_count v opt)) \<and>
            (\<exists>pre post. bucket_order (vote_counts v) = pre @ (w, weighted_count v w) # post \<and>
               (\<forall>(opt, c) \<in> set pre. \<not> float_le (weighted_count v w) c)))"
proof -
  from find_winner_spec[OF fw] show ?thesis
  proof
    assume u: "w = '''' \<and> m = Finite 0 \<and>
      (\<forall>(opt, c) \<in> set (bucket_order (vote_counts v)). \<not> float_less (Finite 0) c)"
    have "\<not> float_less (Finite 0) (weighted_count v opt)" if "opt \<in> snd ` set (votes v)" for opt
    proof -
      from that have "(opt, weighted_count v opt) \<in> set (bucket_order (vote_counts v))"
        by (simp add: perm vote_counts_mem)
      with u show ?thesis by fastforce
    qed
    with u show ?thesis by blast
  next
    assume "\<exists>pre post. bucket_order (vote_counts v) = pre @ (w, m) # post \<and>
        float_less (Finite 0) m \<and>
        (\<forall>(opt, c) \<in> set pre. \<not> float_le m c) \<and> (\<forall>(opt, c) \<in> set post. \<not> float_less m c)"
    then obtain pre post where q: "bucket_order (vote_counts v) = pre @ (w, m) # post"
        "float_less (Finite 0) m"
        "\<forall>(opt, c) \<in> set pre. \<not> float_le m c" "\<forall>(opt, c) \<in> set post. \<not> float_less m c"
      by blast
    have "(w, m) \<in> set (bucket_order (vote_counts v))" by (simp add: q(1))
    then have wm: "w \<in> snd ` set (votes v)" "m = weighted_count v w"
      by (simp_all add: perm vote_counts_mem)
    have le: "\<not> float_less m (weighted_count v opt)" if "opt \<in> snd ` set (votes v)" for opt
    proof -
      from that have "(opt, weighted_count v opt) \<in> set (pre @ (w, m) # post)"
        by (simp add: q(1)[symmetric] perm vote_counts_mem)
      then consider "(opt, weighted_count v opt) \<in> set pre" | "weighted_count v opt = m"
        | "(opt, weighted_count v opt) \<in> set post" by auto
      then show ?thesis
      proof cases
        case 1
        with q(3) have "\<not> float_le m (weighted_count v opt)" by fastforce
        then show ?thesis by (cases m; cases "weighted_count v opt") auto
      next
        case 2
        then show ?thesis by (cases m) auto
      next
        case 3
        with q(4) show ?thesis by fastforce
      qed
    qed
    have "\<exists>opt \<in> snd ` set (votes v). float_less (Finite 0) (weighted_count v opt)"
      using wm q(2) by blast
    then show ?thesis using wm q le by blast
  qed
qed

text \<open>
  Rounding does not take a number from 1 on below 1: with unit weights every option that
  received a vote has a count greater than 0.
\<close>

lemma round_to_even_ge_floor: "\<lfloor>x\<rfloor> \<le> round_to_even x"
  by (simp add: round_to_even_def Let_def)

lemma find_upto_least:
  assumes "find P [l..u] = Some e"
  shows "l \<le> e \<and> e \<le> u \<and> P e \<and> (\<forall>e'. l \<le> e' \<and> e' < e \<longrightarrow> \<not> P e')"
proof -
  from assms obtain i where i: "i < length [l..u]" "P ([l..u] ! i)" "e = [l..u] ! i"
      "\<forall>j<i. \<not> P ([l..u] ! j)"
    unfolding find_Some_iff by blast
  from i(1) have iu: "l + int i \<le> u" by simp
  then have e: "e = l + int i" using i(3) by (simp only: nth_upto)
  have "\<not> P e'" if "l \<le> e'" "e' < e" for e'
  proof -
    from that e have j: "nat (e' - l) < i" by linarith
    with iu have "l + int (nat (e' - l)) \<le> u" by linarith
    then have "[l..u] ! nat (e' - l) = l + int (nat (e' - l))" by (rule nth_upto)
    with that(1) have "[l..u] ! nat (e' - l) = e'" by simp
    with i(4) j show ?thesis by metis
  qed
  then show ?thesis using i(2) iu e i(3) by auto
qed

lemma round_float_ge_one:
  assumes "1 \<le> x"
  shows "round_float x = Infinity False \<or> (\<exists>y. round_float x = Finite y \<and> 1 \<le> y)"
proof (cases "find (\<lambda>e. \<bar>x\<bar> < 2 powi (e + 1)) [-126..127]")
  case None
  then show ?thesis using assms by (simp only: round_float_def option.case) simp
next
  case (Some e)
  from find_upto_least[OF Some]
  have el: "-126 \<le> e" and xe': "\<bar>x\<bar> < 2 powi (e + 1)"
    and least: "\<And>e'. -126 \<le> e' \<Longrightarrow> e' < e \<Longrightarrow> \<not> \<bar>x\<bar> < 2 powi (e' + 1)"
    by blast+
  have xe: "x < 2 powi (e + 1)" using xe' assms by simp
  have e0: "0 \<le> e"
  proof (rule ccontr)
    assume "\<not> 0 \<le> e"
    then have "e + 1 \<le> 0" by simp
    then have "(2::rat) powi (e + 1) \<le> 2 powi 0" by (intro power_int_increasing) simp_all
    with xe assms show False by simp
  qed
  then have "\<not> \<bar>x\<bar> < 2 powi (e - 1 + 1)" by (intro least) simp_all
  then have lo: "2 powi e \<le> x" using assms by simp
  let ?q = "(2::rat) powi (e - 23)"
  have qpos: "0 < ?q" by (simp add: zero_less_power_int)
  have split: "(2::rat) powi e = 2 powi 23 * ?q"
    using power_int_add[of "2::rat" 23 "e - 23"] by simp
  have "2 powi 23 \<le> x / ?q" using lo qpos by (simp add: split pos_le_divide_eq)
  then have "(8388608::rat) \<le> x / ?q" by simp
  then have "(8388608::int) \<le> \<lfloor>x / ?q\<rfloor>" by (simp add: le_floor_iff)
  with round_to_even_ge_floor[of "x / ?q"] have r: "8388608 \<le> round_to_even (x / ?q)" by linarith
  let ?y = "of_int (round_to_even (x / ?q)) * ?q"
  have "(8388608::rat) \<le> of_int (round_to_even (x / ?q))" using r by linarith
  then have "8388608 * ?q \<le> ?y" using qpos by (simp add: mult_right_mono)
  moreover have "8388608 * ?q = 2 powi e" by (simp add: split)
  moreover have "(1::rat) \<le> 2 powi e" using e0 by (simp add: one_le_power_int)
  ultimately have y1: "1 \<le> ?y" by linarith
  show ?thesis using y1 by (simp only: round_float_def Some option.case Let_def) simp
qed

lemma unit_sum_ge_one:
  "a = Infinity False \<or> (\<exists>y. a = Finite y \<and> 1 \<le> y) \<Longrightarrow>
   foldl float_add a (replicate n (Finite 1)) = Infinity False \<or>
   (\<exists>y. foldl float_add a (replicate n (Finite 1)) = Finite y \<and> 1 \<le> y)"
proof (induction n arbitrary: a)
  case 0
  then show ?case by simp
next
  case (Suc n)
  have "float_add a (Finite 1) = Infinity False \<or> (\<exists>y. float_add a (Finite 1) = Finite y \<and> 1 \<le> y)"
    using Suc.prems
  proof
    assume "a = Infinity False"
    then show ?thesis by simp
  next
    assume "\<exists>y. a = Finite y \<and> 1 \<le> y"
    then obtain y where "a = Finite y" "1 \<le> y" by blast
    then show ?thesis using round_float_ge_one[of "y + 1"] by simp
  qed
  from Suc.IH[OF this] show ?case by simp
qed

lemma round_float_one: "round_float 1 = Finite 1"
  by code_simp

lemma unit_weight_count_pos:
  assumes "vote_type v \<noteq> CONSENSUS_WEIGHTED" and "opt \<in> snd ` set (votes v)"
  shows "float_less (Finite 0) (weighted_count v opt)"
proof -
  have w: "weight_of_vote v agent = Finite 1" for agent
    using assms(1) by (simp add: weight_of_vote_def split: consensus_type.splits)
  let ?n = "length (filter (\<lambda>(agent, o'). o' = opt) (votes v))"
  have "map (\<lambda>(agent, o'). Finite 1) xs = replicate (length xs) (Finite 1)"
    for xs :: "(string \<times> string) list"
    by (induction xs) auto
  then have wf: "weights_for v (votes v) opt = replicate ?n (Finite 1)"
    by (simp add: weights_for_def w)
  from assms(2) have "filter (\<lambda>(agent, o'). o' = opt) (votes v) \<noteq> []"
    by (auto simp: filter_empty_conv)
  then obtain k where k: "?n = Suc k" by (cases ?n) auto
  have "weighted_count v opt = foldl float_add (Finite 1) (replicate k (Finite 1))"
    by (simp add: weighted_count_def wf k round_float_one)
  moreover have "foldl float_add (Finite 1) (replicate k (Finite 1)) = Infinity False \<or>
   (\<exists>y. foldl float_add (Finite 1) (replicate k (Finite 1)) = Finite y \<and> 1 \<le> y)"
    by (rule unit_sum_ge_one) simp
  ultimately show ?thesis by auto
qed

text \<open>
  C5, as the code has it. The iteration over the table of counts visits exactly its
  entries (the hypothesis). The count of an option and the total weight are the sums the
  program forms, in single precision. A ballot without votes has the empty result, and so
  has every ballot in which no option has a count greater than 0; a ballot that is not
  weighted and has votes is never of this kind. Otherwise there is a winner \<open>w\<close>: an option that received votes, whose count is greater than 0 and is
  exceeded by no option's count, and which is the first such entry in the order the table
  is visited (no entry before it reaches its count). The result is \<open>w\<close> if its share of
  the total weight is more than \<^verbatim>\<open>0.5f\<close> (simple majority), at least \<^verbatim>\<open>0.66f\<close>
  (supermajority), at least \<^verbatim>\<open>1.0f\<close> (unanimous), always (weighted), and the empty string
  otherwise.
\<close>

theorem c5_tally_first_maximum_in_table_order:
  assumes perm: "set (bucket_order (vote_counts v)) = set (vote_counts v)"
  shows "(votes v = [] \<longrightarrow> calculate_result bucket_order v = '''') \<and>
         (vote_type v \<noteq> CONSENSUS_WEIGHTED \<and> votes v \<noteq> [] \<longrightarrow>
            (\<exists>opt \<in> snd ` set (votes v). float_less (Finite 0) (weighted_count v opt))) \<and>
         ((\<forall>opt \<in> snd ` set (votes v). \<not> float_less (Finite 0) (weighted_count v opt)) \<longrightarrow>
            calculate_result bucket_order v = '''') \<and>
         ((\<exists>opt \<in> snd ` set (votes v). float_less (Finite 0) (weighted_count v opt)) \<longrightarrow>
            (\<exists>w pre post.
               w \<in> snd ` set (votes v) \<and>
               float_less (Finite 0) (weighted_count v w) \<and>
               (\<forall>opt \<in> snd ` set (votes v).
                  \<not> float_less (weighted_count v w) (weighted_count v opt)) \<and>
               bucket_order (vote_counts v) = pre @ (w, weighted_count v w) # post \<and>
               (\<forall>(opt, c) \<in> set pre. \<not> float_le (weighted_count v w) c) \<and>
               calculate_result bucket_order v =
                 (case vote_type v of
                    CONSENSUS_SIMPLE_MAJORITY \<Rightarrow>
                      if float_less (Finite (1 / 2))
                           (percentage_of (weighted_count v w) (total_weight_of v))
                      then w else ''''
                  | CONSENSUS_SUPERMAJORITY \<Rightarrow>
                      if float_le (round_float (66 / 100))
                           (percentage_of (weighted_count v w) (total_weight_of v))
                      then w else ''''
                  | CONSENSUS_UNANIMOUS \<Rightarrow>
                      if float_le (Finite 1)
                           (percentage_of (weighted_count v w) (total_weight_of v))
                      then w else ''''
                  | CONSENSUS_WEIGHTED \<Rightarrow> w)))"
proof -
  obtain w m where fw: "find_winner (bucket_order (vote_counts v)) ('''', Finite 0) = (w, m)"
    by (cases "find_winner (bucket_order (vote_counts v)) ('''', Finite 0)")
  note W = winner_of_counts[of bucket_order v w m, OF perm fw]
  have res: "votes v \<noteq> [] \<Longrightarrow> calculate_result bucket_order v =
                 (case vote_type v of
                    CONSENSUS_SIMPLE_MAJORITY \<Rightarrow>
                      if float_less (Finite (1 / 2)) (percentage_of m (total_weight_of v))
                      then w else ''''
                  | CONSENSUS_SUPERMAJORITY \<Rightarrow>
                      if float_le (round_float (66 / 100)) (percentage_of m (total_weight_of v))
                      then w else ''''
                  | CONSENSUS_UNANIMOUS \<Rightarrow>
                      if float_le (Finite 1) (percentage_of m (total_weight_of v))
                      then w else ''''
                  | CONSENSUS_WEIGHTED \<Rightarrow> w)"
    by (simp add: calculate_result_def count_votes_pair fw percentage_of_def Let_def)
  have c1: "votes v = [] \<longrightarrow> calculate_result bucket_order v = ''''"
    by (simp add: calculate_result_def)
  have c2: "(\<forall>opt \<in> snd ` set (votes v). \<not> float_less (Finite 0) (weighted_count v opt)) \<longrightarrow>
            calculate_result bucket_order v = ''''"
  proof
    assume "\<forall>opt \<in> snd ` set (votes v). \<not> float_less (Finite 0) (weighted_count v opt)"
    with W have "w = ''''" by blast
    show "calculate_result bucket_order v = ''''"
    proof (cases "votes v = []")
      case True
      then show ?thesis by (simp add: calculate_result_def)
    next
      case False
      from res[OF False] \<open>w = ''''\<close> show ?thesis by (simp split: consensus_type.splits)
    qed
  qed
  have c3: "(\<exists>opt \<in> snd ` set (votes v). float_less (Finite 0) (weighted_count v opt)) \<longrightarrow>
            (\<exists>w pre post.
               w \<in> snd ` set (votes v) \<and>
               float_less (Finite 0) (weighted_count v w) \<and>
               (\<forall>opt \<in> snd ` set (votes v).
                  \<not> float_less (weighted_count v w) (weighted_count v opt)) \<and>
               bucket_order (vote_counts v) = pre @ (w, weighted_count v w) # post \<and>
               (\<forall>(opt, c) \<in> set pre. \<not> float_le (weighted_count v w) c) \<and>
               calculate_result bucket_order v =
                 (case vote_type v of
                    CONSENSUS_SIMPLE_MAJORITY \<Rightarrow>
                      if float_less (Finite (1 / 2))
                           (percentage_of (weighted_count v w) (total_weight_of v))
                      then w else ''''
                  | CONSENSUS_SUPERMAJORITY \<Rightarrow>
                      if float_le (round_float (66 / 100))
                           (percentage_of (weighted_count v w) (total_weight_of v))
                      then w else ''''
                  | CONSENSUS_UNANIMOUS \<Rightarrow>
                      if float_le (Finite 1)
                           (percentage_of (weighted_count v w) (total_weight_of v))
                      then w else ''''
                  | CONSENSUS_WEIGHTED \<Rightarrow> w))"
  proof
    assume ex: "\<exists>opt \<in> snd ` set (votes v). float_less (Finite 0) (weighted_count v opt)"
    then have ne: "votes v \<noteq> []" by auto
    from W ex obtain pre post where V: "w \<in> snd ` set (votes v)" "m = weighted_count v w"
      "float_less (Finite 0) m"
      "\<forall>opt \<in> snd ` set (votes v). \<not> float_less (weighted_count v w) (weighted_count v opt)"
      "bucket_order (vote_counts v) = pre @ (w, weighted_count v w) # post"
      "\<forall>(opt, c) \<in> set pre. \<not> float_le (weighted_count v w) c"
      by blast
    from res[OF ne] V(2,3) have
      "w \<in> snd ` set (votes v) \<and>
               float_less (Finite 0) (weighted_count v w) \<and>
               (\<forall>opt \<in> snd ` set (votes v).
                  \<not> float_less (weighted_count v w) (weighted_count v opt)) \<and>
               bucket_order (vote_counts v) = pre @ (w, weighted_count v w) # post \<and>
               (\<forall>(opt, c) \<in> set pre. \<not> float_le (weighted_count v w) c) \<and>
               calculate_result bucket_order v =
                 (case vote_type v of
                    CONSENSUS_SIMPLE_MAJORITY \<Rightarrow>
                      if float_less (Finite (1 / 2))
                           (percentage_of (weighted_count v w) (total_weight_of v))
                      then w else ''''
                  | CONSENSUS_SUPERMAJORITY \<Rightarrow>
                      if float_le (round_float (66 / 100))
                           (percentage_of (weighted_count v w) (total_weight_of v))
                      then w else ''''
                  | CONSENSUS_UNANIMOUS \<Rightarrow>
                      if float_le (Finite 1)
                           (percentage_of (weighted_count v w) (total_weight_of v))
                      then w else ''''
                  | CONSENSUS_WEIGHTED \<Rightarrow> w)"
      using V(1,4,5,6) by simp
    then show "\<exists>w pre post.
               w \<in> snd ` set (votes v) \<and>
               float_less (Finite 0) (weighted_count v w) \<and>
               (\<forall>opt \<in> snd ` set (votes v).
                  \<not> float_less (weighted_count v w) (weighted_count v opt)) \<and>
               bucket_order (vote_counts v) = pre @ (w, weighted_count v w) # post \<and>
               (\<forall>(opt, c) \<in> set pre. \<not> float_le (weighted_count v w) c) \<and>
               calculate_result bucket_order v =
                 (case vote_type v of
                    CONSENSUS_SIMPLE_MAJORITY \<Rightarrow>
                      if float_less (Finite (1 / 2))
                           (percentage_of (weighted_count v w) (total_weight_of v))
                      then w else ''''
                  | CONSENSUS_SUPERMAJORITY \<Rightarrow>
                      if float_le (round_float (66 / 100))
                           (percentage_of (weighted_count v w) (total_weight_of v))
                      then w else ''''
                  | CONSENSUS_UNANIMOUS \<Rightarrow>
                      if float_le (Finite 1)
                           (percentage_of (weighted_count v w) (total_weight_of v))
                      then w else ''''
                  | CONSENSUS_WEIGHTED \<Rightarrow> w)"
      by blast
  qed
  have c4: "vote_type v \<noteq> CONSENSUS_WEIGHTED \<and> votes v \<noteq> [] \<longrightarrow>
            (\<exists>opt \<in> snd ` set (votes v). float_less (Finite 0) (weighted_count v opt))"
  proof
    assume a: "vote_type v \<noteq> CONSENSUS_WEIGHTED \<and> votes v \<noteq> []"
    then obtain b where "b \<in> set (votes v)" by (cases "votes v") auto
    then have "snd b \<in> snd ` set (votes v)" by simp
    with unit_weight_count_pos[of v "snd b"] a show
      "\<exists>opt \<in> snd ` set (votes v). float_less (Finite 0) (weighted_count v opt)" by blast
  qed
  from c1 c4 c2 c3 show ?thesis by (intro conjI)
qed

text \<open>
  The theorem at three ballots, the table visited latest entry first. Scenario S5 of the
  specification: supermajority, votes yes, yes, no with weight 1 each; the count of \<open>yes\<close>
  is 2, that of \<open>no\<close> is 1, the share of \<open>yes\<close> is the float nearest to 2/3, which is at
  least \<^verbatim>\<open>0.66f\<close>, so the winner and result is \<open>yes\<close>. The same ballot without votes,
  and the weighted ballot with two votes of weight 0: no count is greater than 0, and the
  result is empty.
\<close>

theorem c5_tally_witness:
  "set (rev (vote_counts s5_ballot)) = set (vote_counts s5_ballot) \<and>
   votes s5_ballot \<noteq> [] \<and>
   (\<exists>opt \<in> snd ` set (votes s5_ballot). float_less (Finite 0) (weighted_count s5_ballot opt)) \<and>
   (\<exists>w pre post.
      w \<in> snd ` set (votes s5_ballot) \<and>
      float_less (Finite 0) (weighted_count s5_ballot w) \<and>
      (\<forall>opt \<in> snd ` set (votes s5_ballot).
         \<not> float_less (weighted_count s5_ballot w) (weighted_count s5_ballot opt)) \<and>
      rev (vote_counts s5_ballot) = pre @ (w, weighted_count s5_ballot w) # post \<and>
      (\<forall>(opt, c) \<in> set pre. \<not> float_le (weighted_count s5_ballot w) c) \<and>
      calculate_result rev s5_ballot =
        (if float_le (round_float (66 / 100))
              (percentage_of (weighted_count s5_ballot w) (total_weight_of s5_ballot))
         then w else '''')) \<and>
   weighted_count s5_ballot ''yes'' = Finite 2 \<and>
   weighted_count s5_ballot ''no'' = Finite 1 \<and>
   percentage_of (Finite 2) (total_weight_of s5_ballot) = Finite (11184811 / 16777216) \<and>
   calculate_result rev s5_ballot = ''yes'' \<and>
   votes (s5_ballot\<lparr>votes := []\<rparr>) = [] \<and>
   calculate_result rev (s5_ballot\<lparr>votes := []\<rparr>) = '''' \<and>
   votes (two_vote_ballot ''a'' (Finite 0) ''a'' (Finite 0)) \<noteq> [] \<and>
   snd ` set (votes (two_vote_ballot ''a'' (Finite 0) ''a'' (Finite 0))) = {''a''} \<and>
   weighted_count (two_vote_ballot ''a'' (Finite 0) ''a'' (Finite 0)) ''a'' = Finite 0 \<and>
   calculate_result rev (two_vote_ballot ''a'' (Finite 0) ''a'' (Finite 0)) = ''''"
proof -
  have perm: "set (rev (vote_counts b)) = set (vote_counts b)" for b by simp
  have ne: "votes s5_ballot \<noteq> []" by (simp add: s5_ballot_def)
  have ty: "vote_type s5_ballot = CONSENSUS_SUPERMAJORITY" by (simp add: s5_ballot_def)
  have yes: "weighted_count s5_ballot ''yes'' = Finite 2"
    and no: "weighted_count s5_ballot ''no'' = Finite 1"
    and pct: "percentage_of (Finite 2) (total_weight_of s5_ballot) = Finite (11184811 / 16777216)"
    and res: "calculate_result rev s5_ballot = ''yes''"
    by code_simp+
  have "''yes'' \<in> snd ` set (votes s5_ballot)" by (simp add: s5_ballot_def)
  moreover have "float_less (Finite 0) (weighted_count s5_ballot ''yes'')" by (simp add: yes)
  ultimately have pos: "\<exists>opt \<in> snd ` set (votes s5_ballot).
      float_less (Finite 0) (weighted_count s5_ballot opt)" by blast
  from c5_tally_first_maximum_in_table_order[of rev s5_ballot, OF perm] pos
  have win: "\<exists>w pre post.
      w \<in> snd ` set (votes s5_ballot) \<and>
      float_less (Finite 0) (weighted_count s5_ballot w) \<and>
      (\<forall>opt \<in> snd ` set (votes s5_ballot).
         \<not> float_less (weighted_count s5_ballot w) (weighted_count s5_ballot opt)) \<and>
      rev (vote_counts s5_ballot) = pre @ (w, weighted_count s5_ballot w) # post \<and>
      (\<forall>(opt, c) \<in> set pre. \<not> float_le (weighted_count s5_ballot w) c) \<and>
      calculate_result rev s5_ballot =
        (if float_le (round_float (66 / 100))
              (percentage_of (weighted_count s5_ballot w) (total_weight_of s5_ballot))
         then w else '''')"
    by (simp only: ty consensus_type.case)
  have e0: "votes (s5_ballot\<lparr>votes := []\<rparr>) = []" by simp
  from c5_tally_first_maximum_in_table_order[of rev "s5_ballot\<lparr>votes := []\<rparr>", OF perm] e0
  have empty: "calculate_result rev (s5_ballot\<lparr>votes := []\<rparr>) = ''''" by blast
  let ?z = "two_vote_ballot ''a'' (Finite 0) ''a'' (Finite 0)"
  have zv: "votes ?z \<noteq> []" "snd ` set (votes ?z) = {''a''}"
    by (simp_all add: two_vote_ballot_def)
  have z0: "weighted_count ?z ''a'' = Finite 0" by code_simp
  then have zc: "\<forall>opt \<in> snd ` set (votes ?z). \<not> float_less (Finite 0) (weighted_count ?z opt)"
    unfolding zv(2) by simp
  from c5_tally_first_maximum_in_table_order[of rev ?z, OF perm] zc
  have zero: "calculate_result rev ?z = ''''" by blast
  from perm[of s5_ballot] ne pos win yes no pct res e0 empty zv z0 zero
  show ?thesis by (intro conjI)
qed

text \<open>
  Against the tie-break by smallest option id, against a winner for every ballot, and
  against the winner having the greatest weighted count. In a weighted ballot with one
  vote of weight 1 for \<open>a\<close> and one for \<open>b\<close> the counts tie. When the table is visited
  latest insertion first (what the hash table of libstdc++ does for two keys: a node
  entering an empty bucket is linked at the front of the element list), the result is
  \<open>b\<close>; when it is visited in insertion order, the ballot with the two votes exchanged
  gives \<open>b\<close> as well. In both cases \<open>a\<close> is the smaller id. A weighted ballot whose only
  votes have weight 0 has the empty result although it has votes: the running maximum
  starts at 0 and moves only on a strictly greater count. And in the ballot with the large
  weights the weights for \<open>a\<close> add up to 16777219, more than the 16777218 for \<open>b\<close>, but in
  single precision the sum for \<open>a\<close> stays at 16777216, so that \<open>b\<close> is the result in
  either order of the table (the two large weights are floats: rounding leaves them as
  they are).
\<close>

theorem c5_tie_not_lexicographic_and_zero_weight_has_no_winner:
  "calculate_result rev (two_vote_ballot ''a'' (Finite 1) ''b'' (Finite 1)) = ''b'' \<and>
   calculate_result (\<lambda>counts. counts) (two_vote_ballot ''b'' (Finite 1) ''a'' (Finite 1)) = ''b'' \<and>
   weighted_count (two_vote_ballot ''a'' (Finite 1) ''b'' (Finite 1)) ''a'' = Finite 1 \<and>
   weighted_count (two_vote_ballot ''a'' (Finite 1) ''b'' (Finite 1)) ''b'' = Finite 1 \<and>
   ''a'' < ''b'' \<and>
   calculate_result (\<lambda>counts. counts) (two_vote_ballot ''a'' (Finite 0) ''a'' (Finite 0)) = '''' \<and>
   calculate_result rev (two_vote_ballot ''a'' (Finite 0) ''a'' (Finite 0)) = '''' \<and>
   calculate_result (\<lambda>counts. counts) large_weight_ballot = ''b'' \<and>
   calculate_result rev large_weight_ballot = ''b'' \<and>
   weighted_count large_weight_ballot ''a'' = Finite 16777216 \<and>
   weighted_count large_weight_ballot ''b'' = Finite 16777218 \<and>
   (16777216 + 1 + 1 + 1 :: rat) > 16777218 \<and>
   round_float 16777216 = Finite 16777216 \<and>
   round_float 16777218 = Finite 16777218"
  by code_simp

text \<open>
  The rounding at work on everyday weights: the floats nearest to 1/10 and 2/10 add up to
  the float nearest to 3/10, although their exact sum is smaller. A ballot with these two
  weights for one option and the third for another is a tie for the program.
\<close>

lemma float_add_rounds:
  "float_add (round_float (1 / 10)) (round_float (2 / 10)) = round_float (3 / 10) \<and>
   round_float (1 / 10) = Finite (13421773 / 134217728) \<and>
   round_float (2 / 10) = Finite (13421773 / 67108864) \<and>
   round_float (3 / 10) = Finite (10066330 / 33554432) \<and>
   (13421773 / 134217728 + 13421773 / 67108864 :: rat) < 10066330 / 33554432"
  by code_simp

text \<open>
  C10. \<^verbatim>\<open>finalize_vote\<close> returns the same flag and the same manager state (ballots, result,
  callback calls) for any two lists of eligible agents: the argument is never read.
\<close>

theorem c10_finalize_ignores_eligible_agents:
  "finalize_vote bucket_order mgr vid eligible1 = finalize_vote bucket_order mgr vid eligible2"
  by (simp add: finalize_vote_def)

section \<open>Properties of the retry loop\<close>

lemma send_request_trace:
  "trace (snd (send_request p reg aid req)) = trace reg @ [Send_Request aid]"
  by (simp add: send_request_def Let_def split: option.splits prod.splits)

lemma send_request_fails:
  assumes "\<forall>a r. status (fst (p a r)) \<noteq> RESPONSE_STATUS_SUCCESS"
  shows "status (fst (send_request p reg aid req)) \<noteq> RESPONSE_STATUS_SUCCESS"
proof (cases "agents reg aid")
  case None
  then show ?thesis by (simp add: send_request_def Let_def)
next
  case (Some a)
  from assms have "status (fst (p a req)) \<noteq> RESPONSE_STATUS_SUCCESS" by blast
  then show ?thesis
    by (auto simp: send_request_def Let_def Some split: prod.splits)
qed

lemma retry_loop_all_fail:
  "\<forall>a r. status (fst (p a r)) \<noteq> RESPONSE_STATUS_SUCCESS \<Longrightarrow>
   attempt \<le> max_retries policy \<Longrightarrow>
         \<exists>response reg'.
           retry_loop p policy aid req attempt lastr reg = Inr (Some response, reg') \<and>
           status response \<noteq> RESPONSE_STATUS_SUCCESS \<and>
           trace reg' = trace reg
             @ concat (map (\<lambda>k. [Send_Request aid, Sleep_For (retry_delay policy k)])
                         [attempt..max_retries policy - 1])
             @ [Send_Request aid]"
proof (induction p policy aid req attempt lastr reg rule: retry_loop.induct)
  case (1 p policy aid req attempt lastr reg)
  note fail = "1.prems"(1)
  obtain response reg1 where sr: "send_request p reg aid req = (response, reg1)"
    by (cases "send_request p reg aid req")
  have st: "status response \<noteq> RESPONSE_STATUS_SUCCESS"
    using send_request_fails[OF fail, of reg aid req] by (simp add: sr)
  have tr: "trace reg1 = trace reg @ [Send_Request aid]"
    using send_request_trace[of p reg aid req] by (simp add: sr)
  show ?case
  proof (cases "attempt = max_retries policy")
    case True
    then show ?thesis
      using st tr by (subst retry_loop.simps) (simp add: sr)
  next
    case False
    with "1.prems"(2) have lt: "attempt + 1 \<le> max_retries policy" by simp
    let ?reg2 = "reg1\<lparr>trace := trace reg1 @ [Sleep_For (retry_delay policy attempt)]\<rparr>"
    from "1.IH"[OF "1.prems"(2) sr[symmetric] st False fail lt]
    obtain r' reg' where
      rl: "retry_loop p policy aid req (attempt + 1) (Some response) ?reg2 = Inr (Some r', reg')"
      and s': "status r' \<noteq> RESPONSE_STATUS_SUCCESS"
      and t': "trace reg' = trace ?reg2
             @ concat (map (\<lambda>k. [Send_Request aid, Sleep_For (retry_delay policy k)])
                         [attempt + 1..max_retries policy - 1])
             @ [Send_Request aid]"
      by blast
    have up: "[attempt..max_retries policy - 1] = attempt # [attempt + 1..max_retries policy - 1]"
      using lt by (simp add: upto_rec1)
    have "retry_loop p policy aid req attempt lastr reg = Inr (Some r', reg')"
      using "1.prems"(2) st False rl by (subst retry_loop.simps) (simp add: sr)
    then show ?thesis using s' t' tr by (simp add: up)
  qed
qed

lemma failover_all_fail:
  assumes fail: "\<forall>a r. status (fst (p a r)) \<noteq> RESPONSE_STATUS_SUCCESS"
  shows "\<exists>reg'. failover p req fs reg = (None, reg') \<and>
           trace reg' = trace reg @ map Send_Request fs"
proof (induction fs arbitrary: reg)
  case Nil
  then show ?case by simp
next
  case (Cons f fs)
  obtain response reg1 where sr: "send_request p reg f req = (response, reg1)"
    by (cases "send_request p reg f req")
  have st: "status response \<noteq> RESPONSE_STATUS_SUCCESS"
    using send_request_fails[OF fail, of reg f req] by (simp add: sr)
  have tr: "trace reg1 = trace reg @ [Send_Request f]"
    using send_request_trace[of p reg f req] by (simp add: sr)
  from Cons.IH[of reg1] obtain reg' where
    "failover p req fs reg1 = (None, reg')" "trace reg' = trace reg1 @ map Send_Request fs"
    by blast
  then show ?case using st tr by (simp add: sr)
qed

text \<open>
  C3, as the code has it. \<^verbatim>\<open>retry_handler::can_handle\<close> accepts exactly the kinds timeout,
  connection, unavailable and overload, but \<^verbatim>\<open>send_request_with_policy\<close> never asks it:
  the loop looks at the status of the response only. When every response is a failure,
  of whatever kind, and \<^verbatim>\<open>max_retries\<close> is not negative, the agent is attempted
  \<^verbatim>\<open>max_retries + 1\<close> times with a backoff sleep after each attempt but the last, then each
  fallback agent is attempted once in list order when failover is enabled, and the
  response returned is a failure.
\<close>

theorem c3_every_failure_is_retried:
  assumes "0 \<le> max_retries policy"
    and "\<forall>a r. status (fst (process_request a r)) \<noteq> RESPONSE_STATUS_SUCCESS"
  shows "(\<forall>t. can_handle t \<longleftrightarrow>
            t = ERROR_TYPE_TIMEOUT \<or> t = ERROR_TYPE_CONNECTION \<or>
            t = ERROR_TYPE_UNAVAILABLE \<or> t = ERROR_TYPE_OVERLOAD) \<and>
         (\<exists>response reg'.
            send_request_with_policy process_request reg aid request policy
              = (Some response, reg') \<and>
            status response \<noteq> RESPONSE_STATUS_SUCCESS \<and>
            trace reg' = trace reg
              @ concat (map (\<lambda>k. [Send_Request aid, Sleep_For (retry_delay policy k)])
                          [0..max_retries policy - 1])
              @ [Send_Request aid]
              @ (if enable_failover policy then map Send_Request (fallback_agents policy)
                 else []))"
proof -
  from retry_loop_all_fail[OF assms(2) assms(1), of aid request None reg]
  obtain response reg1 where
    rl: "retry_loop process_request policy aid request 0 None reg = Inr (Some response, reg1)"
    and st: "status response \<noteq> RESPONSE_STATUS_SUCCESS"
    and tr: "trace reg1 = trace reg
             @ concat (map (\<lambda>k. [Send_Request aid, Sleep_For (retry_delay policy k)])
                         [0..max_retries policy - 1])
             @ [Send_Request aid]"
    by blast
  from failover_all_fail[OF assms(2), of request "fallback_agents policy" reg1]
  obtain reg2 where
    fo: "failover process_request request (fallback_agents policy) reg1 = (None, reg2)"
    and tr2: "trace reg2 = trace reg1 @ map Send_Request (fallback_agents policy)"
    by blast
  have "\<exists>response reg'.
            send_request_with_policy process_request reg aid request policy
              = (Some response, reg') \<and>
            status response \<noteq> RESPONSE_STATUS_SUCCESS \<and>
            trace reg' = trace reg
              @ concat (map (\<lambda>k. [Send_Request aid, Sleep_For (retry_delay policy k)])
                          [0..max_retries policy - 1])
              @ [Send_Request aid]
              @ (if enable_failover policy then map Send_Request (fallback_agents policy)
                 else [])"
  proof (cases "enable_failover policy \<and> fallback_agents policy \<noteq> []")
    case True
    then have "send_request_with_policy process_request reg aid request policy
                 = (Some response, reg2)"
      by (simp add: send_request_with_policy_def rl fo)
    then show ?thesis using st tr tr2 True by simp
  next
    case False
    then have "send_request_with_policy process_request reg aid request policy
                 = (Some response, reg1)"
      by (auto simp: send_request_with_policy_def rl)
    then show ?thesis using st tr False by auto
  qed
  then show ?thesis by (simp add: can_handle_def)
qed

text \<open>
  The theorem at an agent that answers every request with an error of kind
  \<open>authentication\<close>, under a policy of one retry, delay 10 ms, multiplier 2 and the fallback
  agent \<open>B\<close>.
\<close>

theorem c3_retry_witness:
  "trace (snd (send_request_with_policy
       (\<lambda>(a :: unit) r.
          (\<lparr>status = RESPONSE_STATUS_ERROR, content = '''', resp_thread_id = '''',
            tokens_used = 0, error_message = ''denied'', error_type = ''authentication'',
            resp_metadata = []\<rparr>, a))
       \<lparr>agents = [''A'' \<mapsto> (), ''B'' \<mapsto> ()], total_messages = 0, total_requests = 0,
        total_failures = 0, trace = []\<rparr>
       ''A''
       \<lparr>prompt = ''hello'', req_thread_id = '''', req_files = [], req_images = [], params = [],
        max_tokens = 0, temperature = 7 / 10, system_prompt = ''''\<rparr>
       \<lparr>max_retries = 1, retry_delay_ms = 10, backoff_multiplier = 2, max_retry_delay_ms = 1000,
        policy_timeout_ms = 1000, enable_failover = True, fallback_agents = [''B''],
        log_failures = True\<rparr>))
   = [Send_Request ''A'', Sleep_For 10, Send_Request ''A'', Send_Request ''B'']"
  (is "trace (snd (send_request_with_policy ?P ?R ?A ?Q ?POL)) = _")
proof -
  have h1: "0 \<le> max_retries ?POL" by simp
  have h2: "\<forall>a r. status (fst (?P a r)) \<noteq> RESPONSE_STATUS_SUCCESS" by simp
  from c3_every_failure_is_retried[OF h1 h2, of ?R ?A ?Q]
  obtain response reg' where
    "send_request_with_policy ?P ?R ?A ?Q ?POL = (Some response, reg')"
    "trace reg' = trace ?R
       @ concat (map (\<lambda>k. [Send_Request ?A, Sleep_For (retry_delay ?POL k)])
                   [0..max_retries ?POL - 1])
       @ [Send_Request ?A]
       @ (if enable_failover ?POL then map Send_Request (fallback_agents ?POL) else [])"
    by blast
  then show ?thesis by (simp add: retry_delay_def truncate_to_int_def)
qed

text \<open>
  Against failing fast on other kinds: an agent whose every response is an error of kind
  \<open>invalid_request\<close>, which \<^verbatim>\<open>can_handle\<close> does not accept, is attempted three times under a
  policy of two retries, with sleeps of 10 and 20 ms in between.
\<close>

theorem c3_invalid_request_is_retried_with_backoff:
  "trace (snd (send_request_with_policy
       (\<lambda>(a :: unit) r.
          (\<lparr>status = RESPONSE_STATUS_ERROR, content = '''', resp_thread_id = '''',
            tokens_used = 0, error_message = ''bad request'', error_type = ''invalid_request'',
            resp_metadata = []\<rparr>, a))
       \<lparr>agents = [''A'' \<mapsto> ()], total_messages = 0, total_requests = 0,
        total_failures = 0, trace = []\<rparr>
       ''A''
       \<lparr>prompt = ''hello'', req_thread_id = '''', req_files = [], req_images = [], params = [],
        max_tokens = 0, temperature = 7 / 10, system_prompt = ''''\<rparr>
       \<lparr>max_retries = 2, retry_delay_ms = 10, backoff_multiplier = 2, max_retry_delay_ms = 1000,
        policy_timeout_ms = 1000, enable_failover = False, fallback_agents = [],
        log_failures = True\<rparr>))
   = [Send_Request ''A'', Sleep_For 10, Send_Request ''A'', Sleep_For 20, Send_Request ''A'']
   \<and> \<not> can_handle ERROR_TYPE_INVALID_REQUEST"
  by (simp add: send_request_with_policy_def retry_loop.simps send_request_def retry_delay_def
      truncate_to_int_def can_handle_def)

text \<open>
  C4 at the preset \<^verbatim>\<open>aggressive_policy\<close> (500 ms, multiplier 1.5, cap 10 s). The claimed
  delay after attempt 1 is min(500 * 1.5, 10000) = 750 ms; the code sleeps 500 ms, since
  1.5 is cast to the integer 1 before it is multiplied. The delays after attempts 0 to 4
  are 500, 500, 1000, 1500, 2500 ms. The backoff of the actor layer, which multiplies
  before it converts, gives 750.
\<close>

theorem c4_backoff_truncates_the_power:
  "retry_delay aggressive_policy 1 = 500 \<and>
   min (of_int (retry_delay_ms aggressive_policy) * backoff_multiplier aggressive_policy ^ 1)
       (of_int (max_retry_delay_ms aggressive_policy)) = (750 :: rat) \<and>
   map (retry_delay aggressive_policy) [0, 1, 2, 3, 4] = [500, 500, 1000, 1500, 2500] \<and>
   get_backoff 500 (3 / 2) 10000 1 = 750"
  by (simp add: retry_delay_def aggressive_policy_def truncate_to_int_def get_backoff_def
      power2_eq_square power3_eq_cube power4_eq_xxxx floor_eq_iff)

section \<open>Properties of the JSON codecs\<close>

lemma string_members_of_map:
  "string_members (map (\<lambda>(k, v). (k, JString v)) kvs) = Inr kvs"
  by (induction kvs) auto

text \<open>
  The message codec is a round trip for every message, all six kinds included.
\<close>

lemma agent_message_roundtrip:
  "agent_message_from_json now (agent_message_to_json m) = Inr m"
  by (cases "msg_type m")
    (simp_all add: agent_message_from_json_def agent_message_to_json_def and_then_def
      value_string_def value_int_def value_string_map_def string_members_of_map)

text \<open>
  The failure-record codec returns every field but the error kind, which is always
  \<^verbatim>\<open>ERROR_TYPE_UNKNOWN\<close> after decoding.
\<close>

lemma failure_record_roundtrip_forgets_error:
  "failure_record_from_json now (failure_record_to_json r) = Inr (r\<lparr>fr_error := ERROR_TYPE_UNKNOWN\<rparr>)"
  by (simp add: failure_record_from_json_def failure_record_to_json_def and_then_def
      value_string_def value_int_def value_bool_def)

text \<open>
  C6 at a failure record of kind \<open>timeout\<close>: all its fields hold recognised values, and
  decoding its encoding yields the kind \<open>unknown\<close>, not \<open>timeout\<close>.
\<close>

theorem c6_failure_record_decodes_to_unknown:
  "failure_record_from_json 2000
     (failure_record_to_json
        \<lparr>fr_agent_id = ''agent-1'', fr_error = ERROR_TYPE_TIMEOUT,
         fr_error_message = ''no answer'', fr_timestamp = 1000, fr_thread_id = ''t1'',
         fr_message_id = ''m1'', retry_count = 2, recovered = False, recovery_agent = ''''\<rparr>)
   = Inr \<lparr>fr_agent_id = ''agent-1'', fr_error = ERROR_TYPE_UNKNOWN,
          fr_error_message = ''no answer'', fr_timestamp = 1000, fr_thread_id = ''t1'',
          fr_message_id = ''m1'', retry_count = 2, recovered = False, recovery_agent = ''''\<rparr>"
  by (simp add: failure_record_from_json_def failure_record_to_json_def and_then_def
      value_string_def value_int_def value_bool_def)

section \<open>Properties of the context builder\<close>

lemma put_put: "put b (put a out) = put (a @ b) out"
  by (simp add: put_def)

lemma put_Nil: "put [] out = out"
  by (simp add: put_def)

lemma foldl_put:
  "foldl (\<lambda>s x. put (f x) s) out xs = put (concat (map f xs)) out"
  by (induction xs arbitrary: out) (simp_all add: put_Nil put_put)

lemma put_failed: "failbit out \<Longrightarrow> put s out = out"
  by (simp add: put_def)

lemma join_comma_eq:
  "xs \<noteq> [] \<Longrightarrow> join_comma xs = hd xs @ concat (map (\<lambda>x. '', '' @ x) (tl xs))"
  by (induction xs rule: join_comma.induct) simp_all

lemma collect_turns_spec:
  "collect_turns budget xs (inc, tot, k, tr) = (inc', tot', k', tr') \<Longrightarrow>
   \<exists>j. j \<le> length xs \<and> inc' = inc @ take j xs \<and> k' = k + int j \<and>
       (tr' \<longrightarrow> tr \<or> j < length xs)"
proof (induction xs arbitrary: inc tot k)
  case Nil
  then show ?case by simp
next
  case (Cons x xs)
  show ?case
  proof (cases "budget > 0 \<and> tot + estimate_turn_tokens x > budget")
    case True
    with Cons.prems have "inc' = inc" "k' = k" by (simp_all add: Let_def)
    then have "0 \<le> length (x # xs) \<and> inc' = inc @ take 0 (x # xs) \<and> k' = k + int 0 \<and>
       (tr' \<longrightarrow> tr \<or> 0 < length (x # xs))" by simp
    then show ?thesis by blast
  next
    case False
    with Cons.prems have
      "collect_turns budget xs (inc @ [x], tot + estimate_turn_tokens x, k + 1, tr)
         = (inc', tot', k', tr')"
      by (simp add: Let_def)
    from Cons.IH[OF this] obtain j where j: "j \<le> length xs" "inc' = (inc @ [x]) @ take j xs"
      "k' = k + 1 + int j" "tr' \<longrightarrow> tr \<or> j < length xs" by blast
    then have "Suc j \<le> length (x # xs) \<and> inc' = inc @ take (Suc j) (x # xs) \<and>
       k' = k + int (Suc j) \<and> (tr' \<longrightarrow> tr \<or> Suc j < length (x # xs))" by simp
    then show ?thesis by blast
  qed
qed

lemma file_loop_spec:
  "distinct fl \<Longrightarrow> set inc \<inter> set fl = {} \<Longrightarrow>
   file_loop fs budget tt fl (out, inc, ft, tr) = (out', inc', ft', tr') \<Longrightarrow>
   tr' \<longrightarrow> tr \<or> (\<exists>f \<in> set fl. f \<notin> set inc')"
proof (induction fl arbitrary: out inc ft)
  case Nil
  then show ?case by simp
next
  case (Cons f0 rest)
  from Cons.prems(1) have d: "distinct rest" and nin: "f0 \<notin> set rest" by simp_all
  from Cons.prems(2) have fi: "f0 \<notin> set inc" and dj: "set inc \<inter> set rest = {}" by auto
  show ?case
  proof (cases "budget > 0 \<and> tt + estimate_file_tokens fs f0 > budget div 2")
    case True
    with Cons.prems(3) have "inc' = inc" by (auto simp: Let_def split: if_splits)
    with fi show ?thesis by auto
  next
    case False
    show ?thesis
    proof (cases "fs f0")
      case None
      with False Cons.prems(3) have
        "\<exists>o2. file_loop fs budget tt rest (o2, inc, ft, tr) = (out', inc', ft', tr')"
        by (auto simp: Let_def split: if_splits)
      then obtain o2 where "file_loop fs budget tt rest (o2, inc, ft, tr) = (out', inc', ft', tr')"
        by blast
      from Cons.IH[OF d dj this] show ?thesis by auto
    next
      case (Some file_text)
      have dj2: "set (inc @ [f0]) \<inter> set rest = {}" using dj nin by auto
      from Some False Cons.prems(3) have
        "\<exists>o2 ft2. file_loop fs budget tt rest (o2, inc @ [f0], ft2, tr) = (out', inc', ft', tr')"
        by (auto simp: Let_def split: if_splits)
      then obtain o2 ft2 where
        "file_loop fs budget tt rest (o2, inc @ [f0], ft2, tr) = (out', inc', ft', tr')"
        by blast
      from Cons.IH[OF d dj2 this] show ?thesis by auto
    qed
  qed
qed

lemma distinct_add_files: "distinct all \<Longrightarrow> distinct (add_files all fl)"
  by (induction fl arbitrary: all) simp_all

lemma distinct_foldl_add_files:
  "distinct all \<Longrightarrow> distinct (foldl (\<lambda>all turn. add_files all (files turn)) all ts)"
  by (induction ts arbitrary: all) (simp_all add: distinct_add_files)

lemma distinct_all_files_of: "distinct (all_files_of thread)"
  by (simp add: all_files_of_def distinct_foldl_add_files)

lemma set_add_files: "set (add_files all fl) = set all \<union> set fl"
  by (induction fl arbitrary: all) auto

lemma set_foldl_add_files:
  "set (foldl (\<lambda>all turn. add_files all (files turn)) all ts) =
     set all \<union> (\<Union>t \<in> set ts. set (files t))"
  by (induction ts arbitrary: all) (auto simp: set_add_files)

lemma set_all_files_of: "set (all_files_of thread) = (\<Union>t \<in> set (turns thread). set (files t))"
  by (simp add: all_files_of_def set_foldl_add_files)

lemma all_files_of_empty:
  "all_files_of thread = [] \<longleftrightarrow> (\<forall>t \<in> set (turns thread). files t = [])"
proof -
  have "all_files_of thread = [] \<longleftrightarrow> set (all_files_of thread) = {}" by simp
  then show ?thesis by (simp only: set_all_files_of) auto
qed

lemma file_loop_break:
  "budget > 0 \<and> tt + estimate_file_tokens fs f0 > budget div 2 \<Longrightarrow>
   file_loop fs budget tt (f0 # rest) (out, inc, ft, tr) = (out, inc, ft, True)"
  by (simp add: Let_def)

lemma file_loop_step:
  "\<not> (budget > 0 \<and> tt + estimate_file_tokens fs f0 > budget div 2) \<Longrightarrow>
   file_loop fs budget tt (f0 # rest) (out, inc, ft, tr) =
     (case fs f0 of
        Some file_text \<Rightarrow>
          file_loop fs budget tt rest
            (put ''\<newline>--- End File ---\<newline>''
               (put_rdbuf file_text (put (''\<newline>--- File: '' @ f0 @ '' ---\<newline>'') out)),
             inc @ [f0], ft + estimate_file_tokens fs f0, tr)
      | None \<Rightarrow>
          file_loop fs budget tt rest
            (put ''\<newline>--- End File ---\<newline>''
               (put (''\<newline>--- File: '' @ f0 @ '' ---\<newline>'') out),
             inc, ft, tr))"
  by (simp only: file_loop.simps Let_def if_False)

text \<open>
  The file loop on a stream that has failed writes nothing; it still records the files it
  opens.
\<close>

lemma file_loop_failed:
  "failbit out \<Longrightarrow> file_loop fs budget tt fl (out, inc, ft, tr) = (out', inc', ft', tr') \<Longrightarrow>
   out' = out \<and> (\<exists>vis. inc' = inc @ filter (\<lambda>g. fs g \<noteq> None) vis)"
proof (induction fl arbitrary: inc ft)
  case Nil
  then have "out' = out \<and> inc' = inc @ filter (\<lambda>g. fs g \<noteq> None) []" by simp
  then show ?case by blast
next
  case (Cons f0 rest)
  show ?case
  proof (cases "budget > 0 \<and> tt + estimate_file_tokens fs f0 > budget div 2")
    case True
    from Cons.prems(2)[unfolded file_loop_break[OF True]]
    have "out' = out \<and> inc' = inc @ filter (\<lambda>g. fs g \<noteq> None) []" by simp
    then show ?thesis by blast
  next
    case False
    note step = Cons.prems(2)[unfolded file_loop_step[OF False]]
    show ?thesis
    proof (cases "fs f0")
      case None
      from step have
        "file_loop fs budget tt rest (out, inc, ft, tr) = (out', inc', ft', tr')"
        using Cons.prems(1) by (simp add: None put_failed)
      from Cons.IH[OF Cons.prems(1) this] obtain vis where
        "out' = out" "inc' = inc @ filter (\<lambda>g. fs g \<noteq> None) vis" by blast
      then have "out' = out \<and> inc' = inc @ filter (\<lambda>g. fs g \<noteq> None) (f0 # vis)"
        using None by simp
      then show ?thesis by blast
    next
      case (Some file_text)
      have "put_rdbuf file_text out = out" using Cons.prems(1) by (simp add: put_rdbuf_def)
      with step have
        "file_loop fs budget tt rest (out, inc @ [f0], ft + estimate_file_tokens fs f0, tr)
           = (out', inc', ft', tr')"
        using Cons.prems(1) by (simp add: Some put_failed)
      from Cons.IH[OF Cons.prems(1) this] obtain vis where
        "out' = out" "inc' = (inc @ [f0]) @ filter (\<lambda>g. fs g \<noteq> None) vis" by blast
      then have "out' = out \<and> inc' = inc @ filter (\<lambda>g. fs g \<noteq> None) (f0 # vis)"
        using Some by simp
      then show ?thesis by blast
    qed
  qed
qed

text \<open>
  The text the file loop writes on a sound stream. The files it visits are \<open>vis\<close>. While
  no visited file that opens is empty, every visited file gets its block (header line,
  content, end line). The first empty one sets the fail bit when its stream buffer is
  inserted: the text then ends with the header line of that file.
\<close>

lemma file_loop_text:
  "\<not> failbit out \<Longrightarrow> file_loop fs budget tt fl (out, inc, ft, tr) = (out', inc', ft', tr') \<Longrightarrow>
   \<exists>vis. inc' = inc @ filter (\<lambda>g. fs g \<noteq> None) vis \<and>
     (if \<forall>g \<in> set vis. fs g \<noteq> Some []
      then \<not> failbit out' \<and>
           buf out' = buf out @
             concat (map (\<lambda>g. ''\<newline>--- File: '' @ g @ '' ---\<newline>''
                               @ (case fs g of None \<Rightarrow> [] | Some text \<Rightarrow> text)
                               @ ''\<newline>--- End File ---\<newline>'') vis)
      else failbit out' \<and>
           (\<exists>pre f. f \<in> set vis \<and> fs f = Some [] \<and> (\<forall>g \<in> set pre. fs g \<noteq> Some []) \<and>
              buf out' = buf out @
                concat (map (\<lambda>g. ''\<newline>--- File: '' @ g @ '' ---\<newline>''
                                  @ (case fs g of None \<Rightarrow> [] | Some text \<Rightarrow> text)
                                  @ ''\<newline>--- End File ---\<newline>'') pre)
                @ ''\<newline>--- File: '' @ f @ '' ---\<newline>''))"
  (is "_ \<Longrightarrow> _ \<Longrightarrow> \<exists>vis. ?I inc inc' vis \<and> ?T out out' vis")
proof (induction fl arbitrary: out inc ft)
  case Nil
  then have "?I inc inc' [] \<and> ?T out out' []" by simp
  then show ?case by blast
next
  case (Cons f0 rest)
  let ?block = "\<lambda>g. ''\<newline>--- File: '' @ g @ '' ---\<newline>''
                               @ (case fs g of None \<Rightarrow> [] | Some text \<Rightarrow> text)
                               @ ''\<newline>--- End File ---\<newline>''"
  show ?case
  proof (cases "budget > 0 \<and> tt + estimate_file_tokens fs f0 > budget div 2")
    case True
    from Cons.prems(2)[unfolded file_loop_break[OF True]]
    have "out' = out" "inc' = inc" by simp_all
    with Cons.prems(1) have "?I inc inc' [] \<and> ?T out out' []" by simp
    then show ?thesis by blast
  next
    case False
    note step = Cons.prems(2)[unfolded file_loop_step[OF False]]
    let ?out1 = "put (''\<newline>--- File: '' @ f0 @ '' ---\<newline>'') out"
    have o1: "\<not> failbit ?out1" "buf ?out1 = buf out @ ''\<newline>--- File: '' @ f0 @ '' ---\<newline>''"
      using Cons.prems(1) by (simp_all add: put_def)
    show ?thesis
    proof (cases "fs f0")
      case None
      let ?out2 = "put ''\<newline>--- End File ---\<newline>'' ?out1"
      have o2: "\<not> failbit ?out2" "buf ?out2 = buf out @ ?block f0"
        using o1 by (simp_all add: put_def None)
      from step have
        run: "file_loop fs budget tt rest (?out2, inc, ft, tr) = (out', inc', ft', tr')"
        by (simp only: None option.case)
      from Cons.IH[OF o2(1) run] obtain vis where v: "?I inc inc' vis" "?T ?out2 out' vis"
        by blast
      have "?I inc inc' (f0 # vis)" using v(1) None by simp
      moreover have "?T out out' (f0 # vis)"
      proof (cases "\<forall>g \<in> set vis. fs g \<noteq> Some []")
        case True
        with v(2) have "\<not> failbit out'" "buf out' = buf ?out2 @ concat (map ?block vis)"
          by simp_all
        then show ?thesis using True None o2(2) by simp
      next
        case False
        with v(2) obtain pre f where p: "failbit out'" "f \<in> set vis" "fs f = Some []"
          "\<forall>g \<in> set pre. fs g \<noteq> Some []"
          "buf out' = buf ?out2 @ concat (map ?block pre) @ ''\<newline>--- File: '' @ f @ '' ---\<newline>''"
          by auto
        have "f \<in> set (f0 # vis) \<and> fs f = Some [] \<and> (\<forall>g \<in> set (f0 # pre). fs g \<noteq> Some []) \<and>
          buf out' = buf out @ concat (map ?block (f0 # pre)) @ ''\<newline>--- File: '' @ f @ '' ---\<newline>''"
          using p None o2(2) by simp
        then have ex: "\<exists>pre f. f \<in> set (f0 # vis) \<and> fs f = Some [] \<and> (\<forall>g \<in> set pre. fs g \<noteq> Some []) \<and>
          buf out' = buf out @ concat (map ?block pre) @ ''\<newline>--- File: '' @ f @ '' ---\<newline>''"
          by blast
        have nall: "\<not> (\<forall>g \<in> set (f0 # vis). fs g \<noteq> Some [])" using False by simp
        show ?thesis unfolding if_not_P[OF nall] using p(1) ex by blast
      qed
      ultimately show ?thesis by blast
    next
      case (Some file_text)
      show ?thesis
      proof (cases "file_text = []")
        case True
        let ?outf = "?out1\<lparr>failbit := True\<rparr>"
        have pf: "put ''\<newline>--- End File ---\<newline>'' (put_rdbuf file_text ?out1) = ?outf"
          using o1(1) True by (simp add: put_def put_rdbuf_def)
        from step have
          run: "file_loop fs budget tt rest (?outf, inc @ [f0], ft + estimate_file_tokens fs f0, tr)
                  = (out', inc', ft', tr')"
          by (simp only: Some option.case pf)
        have "failbit ?outf" by simp
        from file_loop_failed[OF this run] obtain vis where
          v: "out' = ?outf" "inc' = (inc @ [f0]) @ filter (\<lambda>g. fs g \<noteq> None) vis" by blast
        have I: "?I inc inc' (f0 # vis)" using v(2) Some by simp
        have "f0 \<in> set (f0 # vis) \<and> fs f0 = Some [] \<and> (\<forall>g \<in> set []. fs g \<noteq> Some []) \<and>
          buf out' = buf out @ concat (map ?block []) @ ''\<newline>--- File: '' @ f0 @ '' ---\<newline>''"
          using v(1) o1(2) Some True by simp
        then have ex: "\<exists>pre f. f \<in> set (f0 # vis) \<and> fs f = Some [] \<and> (\<forall>g \<in> set pre. fs g \<noteq> Some []) \<and>
          buf out' = buf out @ concat (map ?block pre) @ ''\<newline>--- File: '' @ f @ '' ---\<newline>''"
          by blast
        have fb: "failbit out'" using v(1) by simp
        have nall: "\<not> (\<forall>g \<in> set (f0 # vis). fs g \<noteq> Some [])" using Some True by simp
        have "?T out out' (f0 # vis)" unfolding if_not_P[OF nall] using fb ex by blast
        with I show ?thesis by blast
      next
        case ne: False
        let ?out2 = "put ''\<newline>--- End File ---\<newline>'' (put_rdbuf file_text ?out1)"
        have o2: "\<not> failbit ?out2" "buf ?out2 = buf out @ ?block f0"
          using o1 ne by (simp_all add: put_def put_rdbuf_def Some)
        from step have
          run: "file_loop fs budget tt rest
                  (?out2, inc @ [f0], ft + estimate_file_tokens fs f0, tr) = (out', inc', ft', tr')"
          by (simp only: Some option.case)
        from Cons.IH[OF o2(1) run] obtain vis where
          v: "?I (inc @ [f0]) inc' vis" "?T ?out2 out' vis"
          by blast
        have f0ne: "fs f0 \<noteq> Some []" using Some ne by simp
        have "?I inc inc' (f0 # vis)" using v(1) Some by simp
        moreover have "?T out out' (f0 # vis)"
        proof (cases "\<forall>g \<in> set vis. fs g \<noteq> Some []")
          case True
          with v(2) have "\<not> failbit out'" "buf out' = buf ?out2 @ concat (map ?block vis)"
            by simp_all
          then show ?thesis using True f0ne o2(2) by simp
        next
          case False
          with v(2) obtain pre f where p: "failbit out'" "f \<in> set vis" "fs f = Some []"
            "\<forall>g \<in> set pre. fs g \<noteq> Some []"
            "buf out' = buf ?out2 @ concat (map ?block pre) @ ''\<newline>--- File: '' @ f @ '' ---\<newline>''"
            by auto
          have "f \<in> set (f0 # vis) \<and> fs f = Some [] \<and> (\<forall>g \<in> set (f0 # pre). fs g \<noteq> Some []) \<and>
            buf out' = buf out @ concat (map ?block (f0 # pre)) @ ''\<newline>--- File: '' @ f @ '' ---\<newline>''"
            using p f0ne o2(2) by simp
          then have ex: "\<exists>pre f. f \<in> set (f0 # vis) \<and> fs f = Some [] \<and> (\<forall>g \<in> set pre. fs g \<noteq> Some []) \<and>
            buf out' = buf out @ concat (map ?block pre) @ ''\<newline>--- File: '' @ f @ '' ---\<newline>''"
            by blast
          have nall: "\<not> (\<forall>g \<in> set (f0 # vis). fs g \<noteq> Some [])" using False by simp
          show ?thesis unfolding if_not_P[OF nall] using p(1) ex by blast
        qed
        ultimately show ?thesis by blast
      qed
    qed
  qed
qed

lemma history_prefix_truncated:
  assumes "history_prefix fs tid thread budget include_files = (out, incf, ft, tr1)" and "tr1"
  shows "\<exists>f \<in> set (all_files_of thread). f \<notin> set incf"
proof (cases "include_files \<and> all_files_of thread \<noteq> []")
  case True
  obtain o1 i1 f1 t1 where fl: "file_loop fs budget 0 (all_files_of thread)
      (put ''Referenced Files:\<newline>'' (write_header tid thread \<lparr>buf = [], failbit = False\<rparr>), [], 0, False)
      = (o1, i1, f1, t1)"
    by (metis prod_cases4)
  from assms(1) True have "i1 = incf" "t1 = tr1"
    by (simp_all add: history_prefix_def Let_def fl)
  moreover from file_loop_spec[OF distinct_all_files_of _ fl]
  have "t1 \<longrightarrow> (\<exists>f \<in> set (all_files_of thread). f \<notin> set i1)" by simp
  ultimately show ?thesis using assms(2) by simp
next
  case False
  with assms have False by (auto simp: history_prefix_def Let_def)
  then show ?thesis ..
qed

lemma write_header_text:
  "write_header tid thread \<lparr>buf = [], failbit = False\<rparr> =
     \<lparr>buf = ''=== Conversation Thread: '' @ tid @ '' ===\<newline>''
            @ ''Initiated by: '' @ initiating_agent thread @ ''\<newline>''
            @ ''Created: '' @ show_int (created_at thread) @ ''\<newline>\<newline>''
            @ (if context_map thread \<noteq> []
               then ''Initial Context:\<newline>'' @ context_lines (context_map thread) @ ''\<newline>''
               else []),
      failbit = False\<rparr>"
  by (simp add: write_header_def put_def Let_def)

text \<open>
  The stream at the start of the turn loop. Either no file that was opened is empty: then
  the stream is sound and holds the header, the section of the visited files (if files
  were asked for and some turn references one) and the line \<^verbatim>\<open>Conversation History:\<close>.
  Or the stream has failed, and its text ends with the header line of the first empty
  file.
\<close>

lemma history_prefix_text:
  assumes hp: "history_prefix fs tid thread budget include_files = (out, incf, ft, tr1)"
  shows "\<exists>vis. incf = filter (\<lambda>g. fs g \<noteq> None) vis \<and>
     (if \<forall>g \<in> set vis. fs g \<noteq> Some []
      then \<not> failbit out \<and>
           buf out = buf (write_header tid thread \<lparr>buf = [], failbit = False\<rparr>)
             @ (if include_files \<and> all_files_of thread \<noteq> []
                then ''Referenced Files:\<newline>''
                     @ concat (map (\<lambda>g. ''\<newline>--- File: '' @ g @ '' ---\<newline>''
                               @ (case fs g of None \<Rightarrow> [] | Some text \<Rightarrow> text)
                               @ ''\<newline>--- End File ---\<newline>'') vis)
                     @ ''\<newline>''
                else [])
             @ ''Conversation History:\<newline>''
      else failbit out \<and>
           (\<exists>pre f. f \<in> set vis \<and> fs f = Some [] \<and> (\<forall>g \<in> set pre. fs g \<noteq> Some []) \<and>
              buf out = buf (write_header tid thread \<lparr>buf = [], failbit = False\<rparr>)
                @ ''Referenced Files:\<newline>''
                @ concat (map (\<lambda>g. ''\<newline>--- File: '' @ g @ '' ---\<newline>''
                                  @ (case fs g of None \<Rightarrow> [] | Some text \<Rightarrow> text)
                                  @ ''\<newline>--- End File ---\<newline>'') pre)
                @ ''\<newline>--- File: '' @ f @ '' ---\<newline>''))"
  (is "\<exists>vis. ?I vis \<and> ?T vis")
proof -
  let ?out0 = "write_header tid thread \<lparr>buf = [], failbit = False\<rparr>"
  let ?block = "\<lambda>g. ''\<newline>--- File: '' @ g @ '' ---\<newline>''
                               @ (case fs g of None \<Rightarrow> [] | Some text \<Rightarrow> text)
                               @ ''\<newline>--- End File ---\<newline>''"
  have h0: "\<not> failbit ?out0" by (simp add: write_header_text)
  show ?thesis
  proof (cases "include_files \<and> all_files_of thread \<noteq> []")
    case False
    with hp have "out = put ''Conversation History:\<newline>'' ?out0" "incf = []"
      by (auto simp: history_prefix_def Let_def)
    with h0 False have "?I [] \<and> ?T []" by (simp add: put_def)
    then show ?thesis by blast
  next
    case True
    let ?outr = "put ''Referenced Files:\<newline>'' ?out0"
    have hr: "\<not> failbit ?outr" "buf ?outr = buf ?out0 @ ''Referenced Files:\<newline>''"
      using h0 by (simp_all add: put_def)
    obtain o1 i1 f1 t1 where fl: "file_loop fs budget 0 (all_files_of thread) (?outr, [], 0, False)
      = (o1, i1, f1, t1)"
      by (metis prod_cases4)
    from hp True have o: "out = put ''Conversation History:\<newline>'' (put ''\<newline>'' o1)" "incf = i1"
      by (simp_all add: history_prefix_def Let_def fl)
    from file_loop_text[OF hr(1) fl] obtain vis where
      v: "i1 = [] @ filter (\<lambda>g. fs g \<noteq> None) vis"
         "if \<forall>g \<in> set vis. fs g \<noteq> Some []
          then \<not> failbit o1 \<and> buf o1 = buf ?outr @ concat (map ?block vis)
          else failbit o1 \<and>
           (\<exists>pre f. f \<in> set vis \<and> fs f = Some [] \<and> (\<forall>g \<in> set pre. fs g \<noteq> Some []) \<and>
              buf o1 = buf ?outr @ concat (map ?block pre) @ ''\<newline>--- File: '' @ f @ '' ---\<newline>'')"
      by blast
    have I: "?I vis" using v(1) o(2) by simp
    have "?T vis"
    proof (cases "\<forall>g \<in> set vis. fs g \<noteq> Some []")
      case all: True
      with v(2) have "\<not> failbit o1" "buf o1 = buf ?outr @ concat (map ?block vis)" by simp_all
      then have "\<not> failbit out \<and> buf out = buf ?out0 @ (''Referenced Files:\<newline>''
                     @ concat (map ?block vis) @ ''\<newline>'') @ ''Conversation History:\<newline>''"
        using o(1) hr(2) by (simp add: put_def)
      then show ?thesis unfolding if_P[OF all] if_P[OF True] by simp
    next
      case nall: False
      with v(2) obtain pre f where p: "failbit o1" "f \<in> set vis" "fs f = Some []"
          "\<forall>g \<in> set pre. fs g \<noteq> Some []"
          "buf o1 = buf ?outr @ concat (map ?block pre) @ ''\<newline>--- File: '' @ f @ '' ---\<newline>''"
        by auto
      from p(1) o(1) have "out = o1" by (simp add: put_def)
      with p hr(2) have "failbit out \<and> f \<in> set vis \<and> fs f = Some [] \<and>
          (\<forall>g \<in> set pre. fs g \<noteq> Some []) \<and>
          buf out = buf ?out0 @ ''Referenced Files:\<newline>'' @ concat (map ?block pre)
             @ ''\<newline>--- File: '' @ f @ '' ---\<newline>''"
        by simp
      then show ?thesis unfolding if_not_P[OF nall] by blast
    qed
    with I show ?thesis by blast
  qed
qed

lemma format_turn_text:
  "format_turn =
     (\<lambda>t. ''\<newline>['' @ role t @ '']''
          @ (if turn_agent_id t \<noteq> [] then '' (agent: '' @ turn_agent_id t @ '')'' else [])
          @ (if model t \<noteq> [] then '' (model: '' @ model t @ '')'' else [])
          @ '':\<newline>'' @ turn_content t @ ''\<newline>''
          @ (if files t \<noteq> []
             then ''  Files: '' @ hd (files t) @ concat (map (\<lambda>f. '', '' @ f) (tl (files t)))
                  @ ''\<newline>''
             else []))"
proof (rule ext)
  fix t
  show "format_turn t =
     ''\<newline>['' @ role t @ '']''
          @ (if turn_agent_id t \<noteq> [] then '' (agent: '' @ turn_agent_id t @ '')'' else [])
          @ (if model t \<noteq> [] then '' (model: '' @ model t @ '')'' else [])
          @ '':\<newline>'' @ turn_content t @ ''\<newline>''
          @ (if files t \<noteq> []
             then ''  Files: '' @ hd (files t) @ concat (map (\<lambda>f. '', '' @ f) (tl (files t)))
                  @ ''\<newline>''
             else [])"
  proof (cases "files t = []")
    case True
    then show ?thesis by (simp add: format_turn_def)
  next
    case False
    show ?thesis unfolding format_turn_def join_comma_eq[OF False] by (simp only: append_assoc)
  qed
qed

text \<open>
  C7. For every memory, thread id, clock reading, file system, budget and file flag: a
  missing or expired thread gives the empty result. Otherwise the number of turns
  included is at most the number of turns of the thread, and if the result is marked
  truncated, then fewer turns than the thread has were included or some file referenced
  by a turn is not among the files included. The text \<^verbatim>\<open>full_context\<close> is given in full,
  up to the list \<open>vis\<close> of the files the file loop visits. If no included file is empty,
  it is the header, the section of the visited files (when files are asked for and some
  turn references one), the line \<^verbatim>\<open>Conversation History:\<close>, then the last
  \<open>turns_included\<close> turns of the thread, each with its role, agent, model, content and
  files, in their order of insertion (although they were collected newest first), then
  the truncation note when truncated. If an included file is empty, inserting its stream
  buffer sets the fail bit of the output stream and nothing is written after that: the
  text ends with the header line of the first such file and no turn is emitted, whatever
  \<open>turns_included\<close> says.
\<close>

theorem c7_context_builder_postcondition:
  "case get_thread now mem tid of
     (None, mem') \<Rightarrow>
       build_conversation_history fs now mem tid budget include_files =
         (\<lparr>full_context = '''', ctx_tokens_used = 0, turns_included = 0,
           files_included = [], truncated = False\<rparr>, mem')
   | (Some thread, mem') \<Rightarrow>
       (let ctx = fst (build_conversation_history fs now mem tid budget include_files);
            shown = drop (length (turns thread) - nat (turns_included ctx)) (turns thread);
            header = ''=== Conversation Thread: '' @ tid @ '' ===\<newline>''
              @ ''Initiated by: '' @ initiating_agent thread @ ''\<newline>''
              @ ''Created: '' @ show_int (created_at thread) @ ''\<newline>\<newline>''
              @ (if context_map thread \<noteq> []
                 then ''Initial Context:\<newline>'' @ context_lines (context_map thread) @ ''\<newline>''
                 else []);
            file_block = (\<lambda>g. ''\<newline>--- File: '' @ g @ '' ---\<newline>''
              @ (case fs g of None \<Rightarrow> [] | Some text \<Rightarrow> text)
              @ ''\<newline>--- End File ---\<newline>'');
            turn_text = (\<lambda>t. ''\<newline>['' @ role t @ '']''
              @ (if turn_agent_id t \<noteq> [] then '' (agent: '' @ turn_agent_id t @ '')'' else [])
              @ (if model t \<noteq> [] then '' (model: '' @ model t @ '')'' else [])
              @ '':\<newline>'' @ turn_content t @ ''\<newline>''
              @ (if files t \<noteq> []
                 then ''  Files: '' @ hd (files t) @ concat (map (\<lambda>f. '', '' @ f) (tl (files t)))
                      @ ''\<newline>''
                 else []))
        in 0 \<le> turns_included ctx \<and>
           turns_included ctx \<le> int (length (turns thread)) \<and>
           (truncated ctx \<longrightarrow>
              turns_included ctx < int (length (turns thread)) \<or>
              (\<exists>t \<in> set (turns thread). \<exists>f \<in> set (files t). f \<notin> set (files_included ctx))) \<and>
           (if \<forall>f \<in> set (files_included ctx). fs f \<noteq> Some []
            then \<exists>vis. files_included ctx = filter (\<lambda>g. fs g \<noteq> None) vis \<and>
                   full_context ctx =
                     header
                     @ (if include_files \<and> (\<exists>t \<in> set (turns thread). files t \<noteq> [])
                        then ''Referenced Files:\<newline>'' @ concat (map file_block vis) @ ''\<newline>''
                        else [])
                     @ ''Conversation History:\<newline>''
                     @ concat (map turn_text shown)
                     @ (if truncated ctx
                        then ''\<newline>[Note: Context was truncated due to token budget]\<newline>''
                        else [])
            else \<exists>pre f. f \<in> set (files_included ctx) \<and> fs f = Some [] \<and>
                   (\<forall>g \<in> set pre. fs g \<noteq> Some []) \<and>
                   full_context ctx =
                     header @ ''Referenced Files:\<newline>'' @ concat (map file_block pre)
                     @ ''\<newline>--- File: '' @ f @ '' ---\<newline>''))"
proof (cases "get_thread now mem tid")
  case (Pair topt mem')
  show ?thesis
  proof (cases topt)
    case None
    then show ?thesis by (simp add: Pair build_conversation_history_def)
  next
    case (Some thread)
    let ?header = "''=== Conversation Thread: '' @ tid @ '' ===\<newline>''
              @ ''Initiated by: '' @ initiating_agent thread @ ''\<newline>''
              @ ''Created: '' @ show_int (created_at thread) @ ''\<newline>\<newline>''
              @ (if context_map thread \<noteq> []
                 then ''Initial Context:\<newline>'' @ context_lines (context_map thread) @ ''\<newline>''
                 else [])"
    let ?block = "\<lambda>g. ''\<newline>--- File: '' @ g @ '' ---\<newline>''
              @ (case fs g of None \<Rightarrow> [] | Some text \<Rightarrow> text)
              @ ''\<newline>--- End File ---\<newline>''"
    let ?note = "''\<newline>[Note: Context was truncated due to token budget]\<newline>''"
    obtain out incf ft tr1 where
      hp: "history_prefix fs tid thread budget include_files = (out, incf, ft, tr1)"
      by (metis prod_cases4)
    obtain inct tot k tr2 where
      ct: "collect_turns budget (rev (turns thread)) ([], 0 + ft, 0, tr1) = (inct, tot, k, tr2)"
      by (metis prod_cases4)
    from collect_turns_spec[OF ct] obtain j where
      j: "j \<le> length (turns thread)" "inct = take j (rev (turns thread))" "k = int j"
         "tr2 \<longrightarrow> tr1 \<or> j < length (turns thread)"
      by auto
    have rv: "rev inct = drop (length (turns thread) - j) (turns thread)"
      by (simp add: j(2) rev_take)
    let ?shown = "drop (length (turns thread) - j) (turns thread)"
    let ?text = "concat (map format_turn ?shown)"
    let ?full = "buf (if tr2 then put truncation_note (put ?text out) else put ?text out)"
    have b: "build_conversation_history fs now mem tid budget include_files =
          (\<lparr>full_context = ?full,
            ctx_tokens_used = tot, turns_included = int j, files_included = incf,
            truncated = tr2\<rparr>, mem')"
      using hp ct
      by (simp add: build_conversation_history_def Pair Some Let_def foldl_put rv j(3))
    have tr: "tr2 \<longrightarrow> int j < int (length (turns thread)) \<or>
                 (\<exists>t \<in> set (turns thread). \<exists>f \<in> set (files t). f \<notin> set incf)"
    proof
      assume tr2
      show "int j < int (length (turns thread)) \<or>
                 (\<exists>t \<in> set (turns thread). \<exists>f \<in> set (files t). f \<notin> set incf)"
      proof (cases tr1)
        case True
        from history_prefix_truncated[OF hp True] obtain f where
          "f \<in> set (all_files_of thread)" "f \<notin> set incf" by blast
        then show ?thesis by (auto simp: set_all_files_of)
      next
        case False
        with j(4) \<open>tr2\<close> show ?thesis by simp
      qed
    qed
    from history_prefix_text[OF hp] obtain vis where
      v: "incf = filter (\<lambda>g. fs g \<noteq> None) vis"
         "if \<forall>g \<in> set vis. fs g \<noteq> Some []
          then \<not> failbit out \<and>
               buf out = buf (write_header tid thread \<lparr>buf = [], failbit = False\<rparr>)
                 @ (if include_files \<and> all_files_of thread \<noteq> []
                    then ''Referenced Files:\<newline>'' @ concat (map ?block vis) @ ''\<newline>''
                    else [])
                 @ ''Conversation History:\<newline>''
          else failbit out \<and>
               (\<exists>pre f. f \<in> set vis \<and> fs f = Some [] \<and> (\<forall>g \<in> set pre. fs g \<noteq> Some []) \<and>
                  buf out = buf (write_header tid thread \<lparr>buf = [], failbit = False\<rparr>)
                    @ ''Referenced Files:\<newline>'' @ concat (map ?block pre)
                    @ ''\<newline>--- File: '' @ f @ '' ---\<newline>'')"
      by blast
    have cond: "(\<forall>f \<in> set incf. fs f \<noteq> Some []) \<longleftrightarrow> (\<forall>g \<in> set vis. fs g \<noteq> Some [])"
      unfolding v(1) by auto
    have hdr: "buf (write_header tid thread \<lparr>buf = [], failbit = False\<rparr>) = ?header"
      by (simp add: write_header_text)
    have af: "all_files_of thread \<noteq> [] \<longleftrightarrow> (\<exists>t \<in> set (turns thread). files t \<noteq> [])"
      by (simp add: all_files_of_empty)
    have body: "if \<forall>f \<in> set incf. fs f \<noteq> Some []
            then \<exists>vis. incf = filter (\<lambda>g. fs g \<noteq> None) vis \<and>
                   ?full =
                     ?header
                     @ (if include_files \<and> (\<exists>t \<in> set (turns thread). files t \<noteq> [])
                        then ''Referenced Files:\<newline>'' @ concat (map ?block vis) @ ''\<newline>''
                        else [])
                     @ ''Conversation History:\<newline>''
                     @ ?text
                     @ (if tr2 then ?note else [])
            else \<exists>pre f. f \<in> set incf \<and> fs f = Some [] \<and>
                   (\<forall>g \<in> set pre. fs g \<noteq> Some []) \<and>
                   ?full =
                     ?header @ ''Referenced Files:\<newline>'' @ concat (map ?block pre)
                     @ ''\<newline>--- File: '' @ f @ '' ---\<newline>''"
    proof (cases "\<forall>g \<in> set vis. fs g \<noteq> Some []")
      case all: True
      with v(2) have ok: "\<not> failbit out"
        and bo: "buf out = ?header
                 @ (if include_files \<and> (\<exists>t \<in> set (turns thread). files t \<noteq> [])
                    then ''Referenced Files:\<newline>'' @ concat (map ?block vis) @ ''\<newline>''
                    else [])
                 @ ''Conversation History:\<newline>''"
        unfolding hdr af by simp_all
      have "?full = buf out @ ?text @ (if tr2 then ?note else [])"
        using ok by (simp add: put_def truncation_note_def)
      then have "?full = ?header
                 @ (if include_files \<and> (\<exists>t \<in> set (turns thread). files t \<noteq> [])
                    then ''Referenced Files:\<newline>'' @ concat (map ?block vis) @ ''\<newline>''
                    else [])
                 @ ''Conversation History:\<newline>'' @ ?text @ (if tr2 then ?note else [])"
        unfolding bo by (simp only: append_assoc)
      with v(1) have ex: "\<exists>vis. incf = filter (\<lambda>g. fs g \<noteq> None) vis \<and>
                   ?full =
                     ?header
                     @ (if include_files \<and> (\<exists>t \<in> set (turns thread). files t \<noteq> [])
                        then ''Referenced Files:\<newline>'' @ concat (map ?block vis) @ ''\<newline>''
                        else [])
                     @ ''Conversation History:\<newline>''
                     @ ?text
                     @ (if tr2 then ?note else [])"
        by blast
      have c: "\<forall>f \<in> set incf. fs f \<noteq> Some []" using all cond by simp
      show ?thesis unfolding if_P[OF c] by (rule ex)
    next
      case nall: False
      with v(2) obtain pre f where p: "failbit out" "f \<in> set vis" "fs f = Some []"
        "\<forall>g \<in> set pre. fs g \<noteq> Some []"
        "buf out = ?header @ ''Referenced Files:\<newline>'' @ concat (map ?block pre)
                    @ ''\<newline>--- File: '' @ f @ '' ---\<newline>''"
        unfolding hdr by auto
      have fb: "?full = buf out" using p(1) by (simp add: put_def)
      have fin: "f \<in> set incf" using p(2,3) by (simp add: v(1))
      have "f \<in> set incf \<and> fs f = Some [] \<and>
                   (\<forall>g \<in> set pre. fs g \<noteq> Some []) \<and>
                   ?full =
                     ?header @ ''Referenced Files:\<newline>'' @ concat (map ?block pre)
                     @ ''\<newline>--- File: '' @ f @ '' ---\<newline>''"
        unfolding fb using fin p(3,4,5) by (intro conjI)
      then have ex: "\<exists>pre f. f \<in> set incf \<and> fs f = Some [] \<and>
                   (\<forall>g \<in> set pre. fs g \<noteq> Some []) \<and>
                   ?full =
                     ?header @ ''Referenced Files:\<newline>'' @ concat (map ?block pre)
                     @ ''\<newline>--- File: '' @ f @ '' ---\<newline>''"
        by (intro exI)
      have c: "\<not> (\<forall>f \<in> set incf. fs f \<noteq> Some [])" using nall cond by simp
      show ?thesis unfolding if_not_P[OF c] by (rule ex)
    qed
    show ?thesis
      unfolding Pair Some
      apply (simp only: prod.case option.case Let_def b fst_conv reconstructed_context.simps
               nat_int)
      using j(1) tr body unfolding format_turn_text
      apply (intro conjI)
         apply simp
        apply simp
       apply assumption
      apply assumption
      done
  qed
qed

text \<open>
  The theorem at the example thread with budget 30, for two contents of \<^verbatim>\<open>notes.txt\<close>.
  With the notes \<^verbatim>\<open>remember\<close> the file costs 2 tokens, the newest two turns cost 12 and
  14, and the oldest would exceed the budget: two turns are included, the result is
  truncated, and the two turns are presented oldest first after the file section. With
  empty notes the same two turns are counted, but the text ends with the header line of
  \<^verbatim>\<open>notes.txt\<close>.
\<close>

theorem c7_context_builder_witness:
  "get_thread 5 example_memory ''T'' = (Some example_thread, example_memory) \<and>
   turns_included (fst (build_conversation_history (example_fs ''remember'') 5 example_memory ''T'' 30 True)) = 2 \<and>
   truncated (fst (build_conversation_history (example_fs ''remember'') 5 example_memory ''T'' 30 True)) \<and>
   files_included (fst (build_conversation_history (example_fs ''remember'') 5 example_memory ''T'' 30 True))
     = [''notes.txt''] \<and>
   (\<exists>vis. [''notes.txt''] = filter (\<lambda>g. example_fs ''remember'' g \<noteq> None) vis \<and>
      full_context (fst (build_conversation_history (example_fs ''remember'') 5 example_memory ''T'' 30 True)) =
        ''=== Conversation Thread: T ===\<newline>Initiated by: A\<newline>Created: 1\<newline>\<newline>''
        @ ''Referenced Files:\<newline>''
        @ concat (map (\<lambda>g. ''\<newline>--- File: '' @ g @ '' ---\<newline>''
              @ (case example_fs ''remember'' g of None \<Rightarrow> [] | Some text \<Rightarrow> text)
              @ ''\<newline>--- End File ---\<newline>'') vis)
        @ ''\<newline>''
        @ ''Conversation History:\<newline>''
        @ ''\<newline>[assistant] (agent: A):\<newline>echo:hello\<newline>''
        @ ''\<newline>[user] (agent: A):\<newline>again\<newline>''
        @ ''\<newline>[Note: Context was truncated due to token budget]\<newline>'') \<and>
   turns_included (fst (build_conversation_history (example_fs '''') 5 example_memory ''T'' 30 True)) = 2 \<and>
   truncated (fst (build_conversation_history (example_fs '''') 5 example_memory ''T'' 30 True)) \<and>
   files_included (fst (build_conversation_history (example_fs '''') 5 example_memory ''T'' 30 True))
     = [''notes.txt''] \<and>
   (\<exists>pre. (\<forall>g \<in> set pre. example_fs '''' g \<noteq> Some []) \<and>
      full_context (fst (build_conversation_history (example_fs '''') 5 example_memory ''T'' 30 True)) =
        ''=== Conversation Thread: T ===\<newline>Initiated by: A\<newline>Created: 1\<newline>\<newline>''
        @ ''Referenced Files:\<newline>''
        @ concat (map (\<lambda>g. ''\<newline>--- File: '' @ g @ '' ---\<newline>''
              @ (case example_fs '''' g of None \<Rightarrow> [] | Some text \<Rightarrow> text)
              @ ''\<newline>--- End File ---\<newline>'') pre)
        @ ''\<newline>--- File: notes.txt ---\<newline>'')"
proof -
  let ?ctx = "fst (build_conversation_history (example_fs ''remember'') 5 example_memory ''T'' 30 True)"
  let ?ctxf = "fst (build_conversation_history (example_fs '''') 5 example_memory ''T'' 30 True)"
  have g: "get_thread 5 example_memory ''T'' = (Some example_thread, example_memory)"
    by (simp add: get_thread_def example_memory_def example_thread_def)
  have ev: "turns_included ?ctx = 2" "truncated ?ctx = True" "files_included ?ctx = [''notes.txt'']"
    by code_simp+
  have evf: "turns_included ?ctxf = 2" "truncated ?ctxf = True" "files_included ?ctxf = [''notes.txt'']"
    by code_simp+
  have sh: "show_int 1 = ''1''"
    by code_simp
  have ne: "\<forall>f \<in> set [''notes.txt'']. example_fs ''remember'' f \<noteq> Some []"
    by (simp add: example_fs_def)
  have nef: "\<not> (\<forall>f \<in> set [''notes.txt'']. example_fs '''' f \<noteq> Some [])"
    by (simp add: example_fs_def)
  have ex: "\<exists>t \<in> set (turns example_thread). files t \<noteq> []"
    by (simp add: example_thread_def example_turn_def)
  have tn: "turns example_thread =
      [(example_turn ''user'' ''hello'')\<lparr>files := [''notes.txt'']\<rparr>,
       example_turn ''assistant'' ''echo:hello'', example_turn ''user'' ''again'']"
    "initiating_agent example_thread = ''A''" "created_at example_thread = 1"
    "context_map example_thread = []"
    by (simp_all add: example_thread_def)
  from c7_context_builder_postcondition
         [where now = 5 and mem = example_memory and tid = "''T''"
            and fs = "example_fs ''remember''" and budget = 30 and include_files = True]
  have sound: "\<exists>vis. [''notes.txt''] = filter (\<lambda>g. example_fs ''remember'' g \<noteq> None) vis \<and>
      full_context ?ctx =
        ''=== Conversation Thread: T ===\<newline>Initiated by: A\<newline>Created: 1\<newline>\<newline>''
        @ ''Referenced Files:\<newline>''
        @ concat (map (\<lambda>g. ''\<newline>--- File: '' @ g @ '' ---\<newline>''
              @ (case example_fs ''remember'' g of None \<Rightarrow> [] | Some text \<Rightarrow> text)
              @ ''\<newline>--- End File ---\<newline>'') vis)
        @ ''\<newline>''
        @ ''Conversation History:\<newline>''
        @ ''\<newline>[assistant] (agent: A):\<newline>echo:hello\<newline>''
        @ ''\<newline>[user] (agent: A):\<newline>again\<newline>''
        @ ''\<newline>[Note: Context was truncated due to token budget]\<newline>''"
    unfolding g prod.case option.case Let_def ev if_P[OF ne] if_P[OF ex] tn sh
    by (simp add: example_turn_def ex)
  from c7_context_builder_postcondition
         [where now = 5 and mem = example_memory and tid = "''T''"
            and fs = "example_fs ''''" and budget = 30 and include_files = True]
  have "\<exists>pre f. f \<in> set [''notes.txt''] \<and> example_fs '''' f = Some [] \<and>
      (\<forall>g \<in> set pre. example_fs '''' g \<noteq> Some []) \<and>
      full_context ?ctxf =
        ''=== Conversation Thread: T ===\<newline>Initiated by: A\<newline>Created: 1\<newline>\<newline>''
        @ ''Referenced Files:\<newline>''
        @ concat (map (\<lambda>g. ''\<newline>--- File: '' @ g @ '' ---\<newline>''
              @ (case example_fs '''' g of None \<Rightarrow> [] | Some text \<Rightarrow> text)
              @ ''\<newline>--- End File ---\<newline>'') pre)
        @ ''\<newline>--- File: '' @ f @ '' ---\<newline>''"
    unfolding g prod.case option.case Let_def evf if_not_P[OF nef] tn sh
    by simp
  then obtain pre f where p: "f \<in> set [''notes.txt'']"
      "\<forall>g \<in> set pre. example_fs '''' g \<noteq> Some []"
      "full_context ?ctxf =
        ''=== Conversation Thread: T ===\<newline>Initiated by: A\<newline>Created: 1\<newline>\<newline>''
        @ ''Referenced Files:\<newline>''
        @ concat (map (\<lambda>g. ''\<newline>--- File: '' @ g @ '' ---\<newline>''
              @ (case example_fs '''' g of None \<Rightarrow> [] | Some text \<Rightarrow> text)
              @ ''\<newline>--- End File ---\<newline>'') pre)
        @ ''\<newline>--- File: '' @ f @ '' ---\<newline>''"
    by blast
  from p(1) have f: "f = ''notes.txt''" by simp
  have failed: "\<exists>pre. (\<forall>g \<in> set pre. example_fs '''' g \<noteq> Some []) \<and>
      full_context ?ctxf =
        ''=== Conversation Thread: T ===\<newline>Initiated by: A\<newline>Created: 1\<newline>\<newline>''
        @ ''Referenced Files:\<newline>''
        @ concat (map (\<lambda>g. ''\<newline>--- File: '' @ g @ '' ---\<newline>''
              @ (case example_fs '''' g of None \<Rightarrow> [] | Some text \<Rightarrow> text)
              @ ''\<newline>--- End File ---\<newline>'') pre)
        @ ''\<newline>--- File: notes.txt ---\<newline>''"
    using p(2,3) unfolding f by (intro exI[of _ pre] conjI) simp_all
  have e2: "truncated ?ctx" "truncated ?ctxf" using ev(2) evf(2) by simp_all
  from g ev(1) e2(1) ev(3) sound evf(1) e2(2) evf(3) failed show ?thesis by (intro conjI)
qed

text \<open>
  The two cases side by side, by evaluation. With the notes \<^verbatim>\<open>remember\<close> the whole text
  is written. With an empty \<^verbatim>\<open>notes.txt\<close> the builder reports the same two turns and the
  truncation, but the text stops after the header line of the file: the end line of the
  file, the line \<^verbatim>\<open>Conversation History:\<close>, both turns and the truncation note are
  missing.
\<close>

lemma context_builder_on_example:
  "fst (build_conversation_history (example_fs ''remember'') 5 example_memory ''T'' 30 True) =
     \<lparr>full_context =
        ''=== Conversation Thread: T ===\<newline>Initiated by: A\<newline>Created: 1\<newline>\<newline>''
        @ ''Referenced Files:\<newline>''
        @ ''\<newline>--- File: notes.txt ---\<newline>remember\<newline>--- End File ---\<newline>''
        @ ''\<newline>''
        @ ''Conversation History:\<newline>''
        @ ''\<newline>[assistant] (agent: A):\<newline>echo:hello\<newline>''
        @ ''\<newline>[user] (agent: A):\<newline>again\<newline>''
        @ ''\<newline>[Note: Context was truncated due to token budget]\<newline>'',
      ctx_tokens_used = 28, turns_included = 2, files_included = [''notes.txt''],
      truncated = True\<rparr>"
  by code_simp

lemma context_builder_empty_file_drops_history:
  "fst (build_conversation_history (example_fs '''') 5 example_memory ''T'' 30 True) =
     \<lparr>full_context =
        ''=== Conversation Thread: T ===\<newline>Initiated by: A\<newline>Created: 1\<newline>\<newline>''
        @ ''Referenced Files:\<newline>''
        @ ''\<newline>--- File: notes.txt ---\<newline>'',
      ctx_tokens_used = 26, turns_included = 2, files_included = [''notes.txt''],
      truncated = True\<rparr>"
  by code_simp

section \<open>Properties of the task scheduler\<close>

lemma can_execute_mono:
  "completed_mono (task_map s) (task_map s') \<Longrightarrow> can_execute s t \<Longrightarrow> can_execute s' t"
  by (auto simp: can_execute_def completed_mono_def list_all_iff)

lemma can_execute_map_eq:
  "task_map s = task_map s' \<Longrightarrow> can_execute s t = can_execute s' t"
  by (simp add: can_execute_def)

lemma queue_ready_step:
  assumes "queue_ready s" and "completed_mono (task_map s) (task_map s')"
    and "\<forall>t \<in> set (task_queue s'). t \<in> set (task_queue s) \<or> can_execute s' t"
  shows "queue_ready s'"
  using assms can_execute_mono unfolding queue_ready_def by blast

lemma add_to_graph_same:
  "task_map (add_to_graph tid deps s) = task_map s \<and>
   task_queue (add_to_graph tid deps s) = task_queue s"
  by (induction deps arbitrary: s) simp_all

lemma submit_ready:
  assumes ok: "heap_ops_ok h" and r: "queue_ready s" and k: "keeps_completed s (Submit task)"
  shows "queue_ready (submit h s task)"
proof (rule queue_ready_step[OF r])
  have m: "task_map (submit h s task) = (task_map s)(task_id task \<mapsto> task)"
    by (simp add: submit_def Let_def add_to_graph_same)
  show "completed_mono (task_map s) (task_map (submit h s task))"
    using k by (auto simp: m completed_mono_def completed_in_def split: if_splits option.splits)
  let ?s2 = "add_to_graph (task_id task) (dependencies task)
               (s\<lparr>task_map := (task_map s)(task_id task \<mapsto> task)\<rparr>)"
  have me: "task_map ?s2 = task_map (submit h s task)"
    by (simp add: m add_to_graph_same)
  show "\<forall>t \<in> set (task_queue (submit h s task)).
          t \<in> set (task_queue s) \<or> can_execute (submit h s task) t"
  proof (cases "can_execute ?s2 task")
    case True
    then have q: "set (task_queue (submit h s task)) = insert task (set (task_queue s))"
      using ok by (simp add: submit_def Let_def heap_ops_ok_def add_to_graph_same)
    from True have "can_execute (submit h s task) task"
      using can_execute_map_eq[OF me] by simp
    then show ?thesis by (auto simp: q)
  next
    case False
    then have "task_queue (submit h s task) = task_queue s"
      by (simp add: submit_def Let_def add_to_graph_same)
    then show ?thesis by simp
  qed
qed

lemma find_task_mem:
  "find_task roles before q = Some (t, remaining) \<Longrightarrow>
   t \<in> set q \<and> set remaining \<subseteq> set before \<union> set q"
proof (induction q arbitrary: before)
  case Nil
  then show ?case by simp
next
  case (Cons a q)
  show ?case
  proof (cases "required_roles a = [] \<or> list_ex (\<lambda>r. r \<in> set (required_roles a)) roles")
    case True
    with Cons.prems show ?thesis by auto
  next
    case False
    with Cons.prems have "find_task roles (before @ [a]) q = Some (t, remaining)" by simp
    from Cons.IH[OF this] show ?thesis by auto
  qed
qed

lemma get_next_task_spec:
  assumes ok: "heap_ops_ok h" and g: "get_next_task h s roles = (Some t, s')"
  shows "t \<in> set (task_queue s) \<and> task_map s' = task_map s \<and>
         set (task_queue s') \<subseteq> set (task_queue s)"
proof -
  from g obtain remaining where f: "find_task roles [] (task_queue s) = Some (t, remaining)"
    and s': "s' = s\<lparr>task_queue := make_heap h remaining\<rparr>"
    by (auto simp: get_next_task_def split: if_splits option.splits)
  from find_task_mem[OF f] ok show ?thesis by (auto simp: s' heap_ops_ok_def)
qed

lemma get_next_task_ready:
  assumes ok: "heap_ops_ok h" and r: "queue_ready s"
  shows "queue_ready (snd (get_next_task h s roles))"
proof (cases "fst (get_next_task h s roles)")
  case None
  then have "snd (get_next_task h s roles) = s"
    by (auto simp: get_next_task_def split: if_splits option.splits)
  then show ?thesis using r by simp
next
  case (Some t)
  then have "get_next_task h s roles = (Some t, snd (get_next_task h s roles))"
    by (simp add: prod_eq_iff)
  from get_next_task_spec[OF ok this] show ?thesis
    using r by (auto simp: queue_ready_def can_execute_def)
qed

lemma update_status_ready:
  assumes r: "queue_ready s" and k: "keeps_completed s (Update_Status tid st aid)"
  shows "queue_ready (update_status s tid st aid)"
proof (rule queue_ready_step[OF r])
  show "completed_mono (task_map s) (task_map (update_status s tid st aid))"
    using k
    by (auto simp: update_status_def completed_mono_def completed_in_def Let_def
        split: if_splits option.splits)
  show "\<forall>t \<in> set (task_queue (update_status s tid st aid)).
          t \<in> set (task_queue s) \<or> can_execute (update_status s tid st aid) t"
    by (simp add: update_status_def Let_def split: option.splits)
qed

lemma fail_task_ready:
  assumes r: "queue_ready s" and k: "keeps_completed s (Fail_Task tid err junk)"
  shows "queue_ready (fail_task s tid err junk)"
proof (rule queue_ready_step[OF r])
  show "completed_mono (task_map s) (task_map (fail_task s tid err junk))"
    using k
    by (auto simp: fail_task_def completed_mono_def completed_in_def
        split: if_splits option.splits)
  show "\<forall>t \<in> set (task_queue (fail_task s tid err junk)).
          t \<in> set (task_queue s) \<or> can_execute (fail_task s tid err junk) t"
    by (simp add: fail_task_def split: option.splits)
qed

lemma cancel_task_ready:
  assumes r: "queue_ready s" and k: "keeps_completed s (Cancel_Task tid)"
  shows "queue_ready (cancel_task s tid)"
proof (rule queue_ready_step[OF r])
  show "completed_mono (task_map s) (task_map (cancel_task s tid))"
    using k
    by (auto simp: cancel_task_def completed_mono_def completed_in_def
        split: if_splits option.splits)
  show "\<forall>t \<in> set (task_queue (cancel_task s tid)).
          t \<in> set (task_queue s) \<or> can_execute (cancel_task s tid) t"
    by (simp add: cancel_task_def split: option.splits)
qed

lemma notify_loop_spec:
  assumes ok: "heap_ops_ok h"
  shows "task_map (notify_loop h ds s) = task_map s \<and>
         (\<forall>t \<in> set (task_queue (notify_loop h ds s)). t \<in> set (task_queue s) \<or> can_execute s t)"
proof (induction ds arbitrary: s)
  case Nil
  then show ?case by simp
next
  case (Cons d ds)
  let ?s1 = "(case task_map s d of
          None \<Rightarrow> s
        | Some t \<Rightarrow>
            if can_execute s t then s\<lparr>task_queue := push_heap h (task_queue s @ [t])\<rparr> else s)"
  have m1: "task_map ?s1 = task_map s" by (simp split: option.splits)
  have q1: "\<forall>t \<in> set (task_queue ?s1). t \<in> set (task_queue s) \<or> can_execute s t"
    using ok by (auto simp: heap_ops_ok_def split: option.splits)
  from Cons.IH[of ?s1] have
    a: "task_map (notify_loop h ds ?s1) = task_map ?s1"
    and b: "\<forall>t \<in> set (task_queue (notify_loop h ds ?s1)).
              t \<in> set (task_queue ?s1) \<or> can_execute ?s1 t"
    by simp_all
  have c: "can_execute ?s1 t = can_execute s t" for t
    by (rule can_execute_map_eq[OF m1])
  show ?case using a b q1 m1 c by (simp del: notify_loop.simps add: notify_loop.simps(2)) blast
qed

lemma complete_task_ready:
  assumes ok: "heap_ops_ok h" and r: "queue_ready s"
  shows "queue_ready (complete_task h s tid res)"
proof (cases "task_map s tid")
  case None
  then show ?thesis using r by (simp add: complete_task_def)
next
  case (Some t)
  let ?s1 = "s\<lparr>task_map := (task_map s)(tid \<mapsto> t\<lparr>t_status := TASK_STATUS_COMPLETED\<rparr>),
               results := (results s)(tid \<mapsto> res)\<rparr>"
  have c: "complete_task h s tid res = notify_loop h (dependents ?s1 tid) ?s1"
    by (simp add: complete_task_def Some notify_dependents_def)
  have mono: "completed_mono (task_map s) (task_map ?s1)"
    by (auto simp: completed_mono_def completed_in_def)
  have r1: "queue_ready ?s1"
    by (rule queue_ready_step[OF r mono]) simp
  from notify_loop_spec[OF ok, of "dependents ?s1 tid" ?s1]
  have m: "task_map (complete_task h s tid res) = task_map ?s1"
    and q: "\<forall>u \<in> set (task_queue (complete_task h s tid res)).
              u \<in> set (task_queue ?s1) \<or> can_execute ?s1 u"
    by (simp_all add: c)
  have e: "can_execute (complete_task h s tid res) u = can_execute ?s1 u" for u
    by (rule can_execute_map_eq[OF m])
  show ?thesis
    using r1 q e unfolding queue_ready_def by blast
qed

lemma exec_op_ready:
  assumes "heap_ops_ok h" and "queue_ready s" and "keeps_completed s op"
  shows "queue_ready (exec_op h s op)"
  using assms
  by (cases op)
    (simp_all add: submit_ready get_next_task_ready update_status_ready complete_task_ready
      fail_task_ready cancel_task_ready del: keeps_completed.simps)

lemma run_ops_ready:
  "heap_ops_ok h \<Longrightarrow> queue_ready s \<Longrightarrow> all_keep_completed h s ops \<Longrightarrow>
   queue_ready (run_ops h s ops)"
  by (induction ops arbitrary: s) (simp_all add: exec_op_ready)

lemma empty_ready: "queue_ready empty_scheduler"
  by (simp add: queue_ready_def empty_scheduler_def)

lemma fail_task_queue: "task_queue (fail_task s tid err junk) = task_queue s"
  by (simp add: fail_task_def split: option.splits)

lemma cancel_task_queue: "set (task_queue (cancel_task s tid)) \<subseteq> set (task_queue s)"
  by (simp add: cancel_task_def split: option.splits)

text \<open>
  C8, as the code has it. Take any heap routines that keep the elements of the vector and
  any sequence of operations on the empty scheduler in which no operation takes the
  status \<^verbatim>\<open>COMPLETED\<close> away from a task. Then every task returned by \<^verbatim>\<open>get_next_task\<close> has
  all its dependencies in the map with status completed. And without any condition,
  \<^verbatim>\<open>fail_task\<close> leaves the ready queue as it is and \<^verbatim>\<open>cancel_task\<close> only removes from it:
  neither releases a dependent; tasks enter the queue in \<^verbatim>\<open>submit\<close> and \<^verbatim>\<open>complete_task\<close>
  only.
\<close>

theorem c8_dispatched_tasks_have_completed_dependencies:
  assumes "heap_ops_ok h"
    and "all_keep_completed h empty_scheduler ops"
    and "get_next_task h (run_ops h empty_scheduler ops) agent_roles = (Some t, s')"
  shows "(\<forall>dep \<in> set (dependencies t).
            \<exists>dt. task_map s' dep = Some dt \<and> t_status dt = TASK_STATUS_COMPLETED) \<and>
         (\<forall>s tid err junk. task_queue (fail_task s tid err junk) = task_queue s) \<and>
         (\<forall>s tid. set (task_queue (cancel_task s tid)) \<subseteq> set (task_queue s))"
proof -
  have r: "queue_ready (run_ops h empty_scheduler ops)"
    by (rule run_ops_ready[OF assms(1) empty_ready assms(2)])
  from get_next_task_spec[OF assms(1) assms(3)]
  have t: "t \<in> set (task_queue (run_ops h empty_scheduler ops))"
    and m: "task_map s' = task_map (run_ops h empty_scheduler ops)"
    by simp_all
  from r t have "can_execute (run_ops h empty_scheduler ops) t"
    by (simp add: queue_ready_def)
  then have "\<forall>dep \<in> set (dependencies t).
            \<exists>dt. task_map s' dep = Some dt \<and> t_status dt = TASK_STATUS_COMPLETED"
    by (auto simp: can_execute_def list_all_iff completed_in_def m split: option.splits)
  then show ?thesis
    using fail_task_queue cancel_task_queue by blast
qed

lemma sorting_heap_ops_ok: "heap_ops_ok sorting_heap_ops"
  by (simp add: heap_ops_ok_def sorting_heap_ops_def)

lemma example_run:
  "run_ops sorting_heap_ops empty_scheduler
      [Submit (example_task ''A'' []), Get_Next_Task [''dev''],
       Submit (example_task ''B'' [''A'']), Complete_Task ''A'' (example_result ''A'')]
   = \<lparr>task_queue = [example_task ''B'' [''A'']],
      task_map = [''A'' \<mapsto> (example_task ''A'' [])\<lparr>t_status := TASK_STATUS_COMPLETED\<rparr>,
                  ''B'' \<mapsto> example_task ''B'' [''A'']],
      results = [''A'' \<mapsto> example_result ''A''],
      dependency_graph = (\<lambda>_. [])(''B'' := [''A'']),
      dependents = (\<lambda>_. [])(''A'' := [''B''])\<rparr>"
  by (simp add: empty_scheduler_def submit_def get_next_task_def complete_task_def
      notify_dependents_def can_execute_def completed_in_def sorting_heap_ops_def
      example_task_def Let_def fun_upd_twist)

text \<open>
  The theorem at scenario S4 in small: \<open>A\<close> is submitted and dispatched, \<open>B\<close> depending on
  \<open>A\<close> is submitted, \<open>A\<close> is completed; the next task dispatched is \<open>B\<close>, and \<open>A\<close> is
  completed.
\<close>

theorem c8_dispatch_witness:
  "heap_ops_ok sorting_heap_ops \<and>
   all_keep_completed sorting_heap_ops empty_scheduler
      [Submit (example_task ''A'' []), Get_Next_Task [''dev''],
       Submit (example_task ''B'' [''A'']), Complete_Task ''A'' (example_result ''A'')] \<and>
   fst (get_next_task sorting_heap_ops
          (run_ops sorting_heap_ops empty_scheduler
             [Submit (example_task ''A'' []), Get_Next_Task [''dev''],
              Submit (example_task ''B'' [''A'']), Complete_Task ''A'' (example_result ''A'')])
          [''dev'']) = Some (example_task ''B'' [''A'']) \<and>
   (\<exists>dt. task_map (snd (get_next_task sorting_heap_ops
          (run_ops sorting_heap_ops empty_scheduler
             [Submit (example_task ''A'' []), Get_Next_Task [''dev''],
              Submit (example_task ''B'' [''A'']), Complete_Task ''A'' (example_result ''A'')])
          [''dev''])) ''A'' = Some dt \<and> t_status dt = TASK_STATUS_COMPLETED)"
  (is "_ \<and> all_keep_completed _ _ ?ops \<and> _ \<and> _")
proof -
  have k: "all_keep_completed sorting_heap_ops empty_scheduler ?ops"
    by code_simp
  have g: "get_next_task sorting_heap_ops (run_ops sorting_heap_ops empty_scheduler ?ops) [''dev'']
           = (Some (example_task ''B'' [''A'']),
              snd (get_next_task sorting_heap_ops
                     (run_ops sorting_heap_ops empty_scheduler ?ops) [''dev'']))"
    unfolding example_run by (simp add: get_next_task_def example_task_def)
  from c8_dispatched_tasks_have_completed_dependencies[OF sorting_heap_ops_ok k g]
  have d: "\<forall>dep \<in> set (dependencies (example_task ''B'' [''A''])).
            \<exists>dt. task_map (snd (get_next_task sorting_heap_ops
                 (run_ops sorting_heap_ops empty_scheduler ?ops) [''dev''])) dep = Some dt
             \<and> t_status dt = TASK_STATUS_COMPLETED"
    by (rule conjunct1)
  have "''A'' \<in> set (dependencies (example_task ''B'' [''A'']))"
    by (simp add: example_task_def)
  with d have h: "\<exists>dt. task_map (snd (get_next_task sorting_heap_ops
                 (run_ops sorting_heap_ops empty_scheduler ?ops) [''dev''])) ''A'' = Some dt
             \<and> t_status dt = TASK_STATUS_COMPLETED"
    by (rule bspec)
  have f: "fst (get_next_task sorting_heap_ops
                 (run_ops sorting_heap_ops empty_scheduler ?ops) [''dev''])
           = Some (example_task ''B'' [''A''])"
    by (subst g) (rule fst_conv)
  show ?thesis
    by (intro conjI) (rule sorting_heap_ops_ok, rule k, rule f, rule h)
qed

text \<open>
  Against the invariant over all reachable states: after the same calls, \<open>A\<close> is cancelled
  (the operation behind \<^verbatim>\<open>DELETE /v1/tasks/{id}\<close>), which overwrites its status
  \<^verbatim>\<open>COMPLETED\<close> by \<^verbatim>\<open>CANCELLED\<close> and leaves \<open>B\<close> in the queue. The next call of
  \<^verbatim>\<open>get_next_task\<close> returns \<open>B\<close>, whose dependency \<open>A\<close> is not completed.
\<close>

theorem c8_dispatched_after_dependency_cancelled:
  "fst (get_next_task sorting_heap_ops
          (run_ops sorting_heap_ops empty_scheduler
             [Submit (example_task ''A'' []), Get_Next_Task [''dev''],
              Submit (example_task ''B'' [''A'']), Complete_Task ''A'' (example_result ''A''),
              Cancel_Task ''A''])
          [''dev'']) = Some (example_task ''B'' [''A'']) \<and>
   dependencies (example_task ''B'' [''A'']) = [''A''] \<and>
   map_option t_status
     (task_map (snd (get_next_task sorting_heap_ops
          (run_ops sorting_heap_ops empty_scheduler
             [Submit (example_task ''A'' []), Get_Next_Task [''dev''],
              Submit (example_task ''B'' [''A'']), Complete_Task ''A'' (example_result ''A''),
              Cancel_Task ''A''])
          [''dev''])) ''A'') = Some TASK_STATUS_CANCELLED"
  by code_simp

end
